theory Spec2Isabelle
  imports Main "HOL-Library.Word" "HOL-Library.Sublist"
begin

unbundle bit_operations_syntax

section \<open>Python string primitives used by the scripts\<close>

text \<open>
  The three scripts edit \<^verbatim>\<open>project.pbxproj\<close> as one Python string. A Python
  string is modelled as a \<^typ>\<open>string\<close>; the operations below are the library calls the
  scripts make (\<^verbatim>\<open>find\<close>, \<^verbatim>\<open>in\<close>, slicing, \<^verbatim>\<open>join\<close>,
  \<^verbatim>\<open>replace\<close>, \<^verbatim>\<open>upper\<close>, \<^verbatim>\<open>os.path.basename\<close>), with the value
  \<open>-1\<close> of a failed \<^verbatim>\<open>find\<close> and the meaning of a negative slice bound kept.
  One \<^typ>\<open>char\<close> stands for one character of the Python string; the markers, the
  templates and the identities are ASCII.
\<close>

fun find_first :: "string \<Rightarrow> string \<Rightarrow> nat option" where
  "find_first sub [] = (if sub = [] then Some 0 else None)"
| "find_first sub (c # cs) =
     (if prefix sub (c # cs) then Some 0 else map_option Suc (find_first sub cs))"

definition py_find :: "string \<Rightarrow> string \<Rightarrow> int \<Rightarrow> int" where
  \<comment> \<open>\<^verbatim>\<open>s.find(sub, start)\<close>: lowest index at or after \<open>start\<close>, or \<open>-1\<close>\<close>
  "py_find s sub start =
     (let n = int (length s);
          st = (if start < 0 then max 0 (start + n) else start)
      in if n < st then - 1
         else (case find_first sub (drop (nat st) s) of
                 None \<Rightarrow> - 1
               | Some i \<Rightarrow> st + int i))"

definition py_in :: "string \<Rightarrow> string \<Rightarrow> bool" where
  \<comment> \<open>\<^verbatim>\<open>sub in s\<close>\<close>
  "py_in sub s = (py_find s sub 0 \<noteq> - 1)"

definition py_index :: "nat \<Rightarrow> int \<Rightarrow> nat" where
  \<comment> \<open>a slice bound: a negative one counts from the end, and both ends clamp\<close>
  "py_index n i = (if i < 0 then nat (i + int n) else min (nat i) n)"

definition slice_to :: "string \<Rightarrow> int \<Rightarrow> string" where
  \<comment> \<open>\<^verbatim>\<open>s[:i]\<close>\<close>
  "slice_to s i = take (py_index (length s) i) s"

definition slice_from :: "string \<Rightarrow> int \<Rightarrow> string" where
  \<comment> \<open>\<^verbatim>\<open>s[i:]\<close>\<close>
  "slice_from s i = drop (py_index (length s) i) s"

fun py_join :: "string \<Rightarrow> string list \<Rightarrow> string" where
  "py_join sep [] = []"
| "py_join sep [x] = x"
| "py_join sep (x # y # ys) = x @ sep @ py_join sep (y # ys)"

function replace_str :: "string \<Rightarrow> string \<Rightarrow> string \<Rightarrow> string" where
  \<comment> \<open>\<^verbatim>\<open>s.replace(old, new)\<close>: every non-overlapping occurrence, left to right\<close>
  "replace_str old new s =
     (if old = [] then new @ concat (map (\<lambda>c. c # new) s)
      else if s = [] then []
      else if prefix old s then new @ replace_str old new (drop (length old) s)
      else hd s # replace_str old new (tl s))"
  by pat_completeness auto
termination
  by (relation "measure (\<lambda>(old, new, s). length s)") auto

declare replace_str.simps [simp del]

definition upper_char :: "char \<Rightarrow> char" where
  \<comment> \<open>\<^verbatim>\<open>str.upper\<close> on one ASCII character, which is all a UUID string holds\<close>
  "upper_char c =
     (if 97 \<le> (of_char c :: nat) \<and> (of_char c :: nat) \<le> 122
      then char_of ((of_char c :: nat) - 32) else c)"

definition py_upper :: "string \<Rightarrow> string" where
  "py_upper s = map upper_char s"

definition basename :: "string \<Rightarrow> string" where
  \<comment> \<open>\<^verbatim>\<open>os.path.basename\<close>: what follows the last slash\<close>
  "basename p = rev (takeWhile (\<lambda>c. c \<noteq> CHR ''/'') (rev p))"

section \<open>The identity generator\<close>

text \<open>
  \<^verbatim>\<open>uuid.uuid4()\<close> draws 16 random bytes, reads them as a number below \<open>2^128\<close>
  and fixes the variant and version bits of that number; \<^verbatim>\<open>str\<close> of the result
  is its 32 lower-case hexadecimal digits in groups of 8-4-4-4-12 joined by dashes.
  The 16 random bytes are the argument \<open>r\<close>; the arithmetic is on Python integers.
\<close>

definition uuid4_int :: "128 word \<Rightarrow> int" where
  "uuid4_int r =
     (((uint r AND NOT (push_bit 48 0xc000)) OR push_bit 48 0x8000)
        AND NOT (push_bit 64 0xf000)) OR push_bit 76 4"

definition hex_char :: "nat \<Rightarrow> char" where
  "hex_char d = ''0123456789abcdef'' ! d"

fun hex_digits :: "nat \<Rightarrow> int \<Rightarrow> string" where
  \<comment> \<open>\<^verbatim>\<open>'%0kx' % n\<close> for \<open>0 \<le> n < 16^k\<close>: \<open>k\<close> digits, most significant first\<close>
  "hex_digits 0 n = []"
| "hex_digits (Suc k) n = hex_digits k (n div 16) @ [hex_char (nat (n mod 16))]"

definition uuid_str :: "int \<Rightarrow> string" where
  "uuid_str u =
     (let hex = hex_digits 32 u
      in take 8 hex @ ''-'' @ take 4 (drop 8 hex) @ ''-'' @ take 4 (drop 12 hex)
           @ ''-'' @ take 4 (drop 16 hex) @ ''-'' @ drop 20 hex)"

definition generate_xcode_uuid :: "128 word \<Rightarrow> string" where
  \<comment> \<open>\<^verbatim>\<open>''.join(str(uuid.uuid4()).upper().replace('-', '')[:24])\<close>\<close>
  "generate_xcode_uuid r =
     py_join [] (map (\<lambda>c. [c])
       (slice_to (replace_str ''-'' [] (py_upper (uuid_str (uuid4_int r)))) 24))"

section \<open>Registering files: \<^verbatim>\<open>add_new_components_to_xcode.py\<close>\<close>

text \<open>
  The script's hard-wired list of (path, group) pairs, and the path of the manifest.
\<close>

definition files_to_add :: "(string \<times> string) list" where
  "files_to_add =
     [(''FitnessCoach/Shared/Components/Core/ThemedComponents.swift'', ''Components''),
      (''FitnessCoach/Shared/Components/Charts/ChartComponents.swift'', ''Components''),
      (''FitnessCoach/Shared/Components/Input/SearchBar.swift'', ''Components''),
      (''FitnessCoach/Shared/Components/Workout/WorkoutComponents.swift'', ''Components''),
      (''Features/Dashboard/DashboardModels.swift'', ''Dashboard''),
      (''Features/Workouts/WorkoutModels.swift'', ''Workouts''),
      (''Features/Nutrition/NutritionModels.swift'', ''Nutrition''),
      (''Features/Nutrition/NutritionViewModel.swift'', ''Nutrition'')]"

definition project_file :: string where
  "project_file = ''FitnessCoach.xcodeproj/project.pbxproj''"

definition tab :: string where
  "tab = [CHR 0x09]"

definition nl :: string where
  "nl = [CHR 0x0A]"

subsection \<open>The four fragments of one file\<close>

definition file_ref_line :: "string \<Rightarrow> string \<Rightarrow> string" where
  \<open>file_ref_line file_uuid filename =
     tab @ tab @ file_uuid @ '' /* '' @ filename
       @ '' */ = {isa = PBXFileReference; lastKnownFileType = sourcecode.swift; path = ''
       @ filename @ ''; sourceTree = "<group>"; };''\<close>

definition build_file_line :: "string \<Rightarrow> string \<Rightarrow> string \<Rightarrow> string" where
  "build_file_line build_uuid file_uuid filename =
     tab @ tab @ build_uuid @ '' /* '' @ filename
       @ '' in Sources */ = {isa = PBXBuildFile; fileRef = '' @ file_uuid
       @ '' /* '' @ filename @ '' */; };''"

definition group_child_line :: "string \<Rightarrow> string \<Rightarrow> string" where
  "group_child_line file_uuid filename =
     tab @ tab @ tab @ tab @ file_uuid @ '' /* '' @ filename @ '' */,''"

definition sources_line :: "string \<Rightarrow> string \<Rightarrow> string" where
  "sources_line build_uuid filename =
     tab @ tab @ tab @ tab @ build_uuid @ '' /* '' @ filename @ '' in Sources */,''"

subsection \<open>The loop over the entries\<close>

text \<open>
  The loop appends to four buffers, calls the identity generator and prints. Its state is
  the record below: \<open>minted\<close> lists what the calls of \<^verbatim>\<open>generate_xcode_uuid\<close>
  made so far have returned, and the call after \<open>i\<close> earlier ones reads the random
  bytes \<open>rnd i\<close>; \<open>printed\<close> is the console, one line per \<^verbatim>\<open>print\<close>. \<open>group_children\<close> is the dictionary, kept in insertion order.
\<close>

record staged =
  file_refs_section :: "string list"
  build_files_section :: "string list"
  group_children :: "(string \<times> string list) list"
  sources_build_phase :: "string list"
  minted :: "string list"
  printed :: "string list"

definition no_staged :: staged where
  "no_staged =
     \<lparr>file_refs_section = [], build_files_section = [], group_children = [],
      sources_build_phase = [], minted = [], printed = []\<rparr>"

fun add_child :: "string \<Rightarrow> string \<Rightarrow> (string \<times> string list) list
                    \<Rightarrow> (string \<times> string list) list" where
  \<comment> \<open>\<^verbatim>\<open>if g not in d: d[g] = []\<close> then \<^verbatim>\<open>d[g].append(line)\<close>\<close>
  "add_child g line [] = [(g, [line])]"
| "add_child g line ((k, v) # kvs) =
     (if k = g then (k, v @ [line]) # kvs else (k, v) # add_child g line kvs)"

definition stage_entry ::
  "(string \<Rightarrow> bool) \<Rightarrow> (nat \<Rightarrow> 128 word) \<Rightarrow> string \<Rightarrow> staged \<Rightarrow> string \<times> string \<Rightarrow> staged"
where
  "stage_entry path_exists rnd content st entry =
     (case entry of (file_path, group_name) \<Rightarrow>
        if \<not> path_exists file_path
        then st\<lparr>printed := printed st @ [''Warning: '' @ file_path @ '' does not exist'']\<rparr>
        else
          let filename = basename file_path;
              file_uuid = generate_xcode_uuid (rnd (length (minted st)));
              build_uuid = generate_xcode_uuid (rnd (length (minted st) + 1));
              st1 = st\<lparr>minted := minted st @ [file_uuid, build_uuid]\<rparr>
          in if py_in filename content
             then st1\<lparr>printed := printed st1
                          @ [''Skipping '' @ filename @ '' - already in project'']\<rparr>
             else st1
               \<lparr>file_refs_section :=
                  file_refs_section st1 @ [file_ref_line file_uuid filename],
                build_files_section :=
                  build_files_section st1 @ [build_file_line build_uuid file_uuid filename],
                group_children :=
                  add_child group_name (group_child_line file_uuid filename)
                    (group_children st1),
                sources_build_phase :=
                  sources_build_phase st1 @ [sources_line build_uuid filename],
                printed := printed st1
                  @ [''Adding: '' @ filename @ '' to '' @ group_name @ '' group'']\<rparr>)"

definition stage_entries ::
  "(string \<Rightarrow> bool) \<Rightarrow> (nat \<Rightarrow> 128 word) \<Rightarrow> string \<Rightarrow> (string \<times> string) list \<Rightarrow> staged"
where
  "stage_entries path_exists rnd content entries =
     foldl (stage_entry path_exists rnd content) no_staged entries"

subsection \<open>The three insertions\<close>

definition file_ref_marker :: string where
  "file_ref_marker = ''/* End PBXFileReference section */''"

definition build_file_marker :: string where
  "build_file_marker = ''/* End PBXBuildFile section */''"

definition sources_marker :: string where
  "sources_marker = ''/* Sources */,''"

definition insert_before_marker :: "string \<Rightarrow> string list \<Rightarrow> string \<Rightarrow> string" where
  "insert_before_marker marker section content =
     (if py_in marker content
      then let insert_pos = py_find content marker 0
           in slice_to content insert_pos @ py_join nl section @ nl
                @ slice_from content insert_pos
      else content)"

definition insert_sources :: "string list \<Rightarrow> string \<Rightarrow> string" where
  "insert_sources section content =
     (if py_in sources_marker content
      then let sources_pos = py_find content sources_marker 0;
               files_pos = py_find content ''files = ('' sources_pos
           in if files_pos \<noteq> - 1
              then let end_bracket_pos = py_find content '');'' files_pos
                   in slice_to content end_bracket_pos @ py_join nl section @ nl
                        @ slice_from content end_bracket_pos
              else content
      else content)"

definition patch :: "staged \<Rightarrow> string \<Rightarrow> string" where
  "patch st content =
     insert_sources (sources_build_phase st)
       (insert_before_marker build_file_marker (build_files_section st)
          (insert_before_marker file_ref_marker (file_refs_section st) content))"

subsection \<open>The whole call\<close>

definition digit_char :: "nat \<Rightarrow> char" where
  "digit_char d = ''0123456789'' ! d"

function show_nat :: "nat \<Rightarrow> string" where
  \<comment> \<open>the decimal numeral an f-string prints for \<^verbatim>\<open>len(...)\<close>\<close>
  "show_nat n = (if n < 10 then [digit_char n] else show_nat (n div 10) @ [digit_char (n mod 10)])"
  by pat_completeness auto
termination
  by (relation "measure id") auto

declare show_nat.simps [simp del]

definition group_hints :: "(string \<times> string list) list \<Rightarrow> string list" where
  "group_hints gc =
     concat (map (\<lambda>(group, files).
       (nl @ ''Files for '' @ group @ '' group:'') # map (\<lambda>file_entry. ''  '' @ file_entry) files) gc)"

text \<open>
  What one call does to the manifest and to the console: \<open>written\<close> is the text handed
  to \<^verbatim>\<open>f.write\<close>, \<open>None\<close> when the call returns before opening the file for
  writing; \<open>minted_ids\<close> lists the identities the generator returned during the call.
\<close>

record outcome =
  written :: "string option"
  console :: "string list"
  minted_ids :: "string list"

definition register_files ::
  "(string \<Rightarrow> bool) \<Rightarrow> (nat \<Rightarrow> 128 word) \<Rightarrow> (string \<times> string) list \<Rightarrow> string \<Rightarrow> outcome"
where
  "register_files path_exists rnd entries content =
     (let st = stage_entries path_exists rnd content entries
      in if file_refs_section st = []
         then \<lparr>written = None,
               console = printed st @ [''No new files to add''],
               minted_ids = minted st\<rparr>
         else \<lparr>written = Some (patch st content),
               console = printed st
                 @ [nl @ ''Successfully added '' @ show_nat (length (file_refs_section st))
                      @ '' files to Xcode project'',
                    nl @ ''Note: You may need to manually organize files into groups in Xcode'']
                 @ group_hints (group_children st),
               minted_ids = minted st\<rparr>)"

definition text_after :: "string \<Rightarrow> outcome \<Rightarrow> string" where
  \<comment> \<open>the manifest text after a call that was given \<open>content\<close>\<close>
  "text_after content out = (case written out of None \<Rightarrow> content | Some c \<Rightarrow> c)"

subsection \<open>Reading and writing the manifest file\<close>

text \<open>
  The scripts open the manifest in text mode. \<^verbatim>\<open>f.read()\<close> decodes the bytes of the
  file, which raises \<^verbatim>\<open>UnicodeDecodeError\<close> when they are not valid in the encoding,
  and translates every line ending (CR LF, or CR alone) to LF. What is on disk at a path
  is therefore either undecodable or a sequence of characters, as the decoder gives them
  and before the translation of the line endings. \<^verbatim>\<open>f.write\<close> is taken as on the
  systems Xcode runs on, where a line feed is written as it is.
\<close>

datatype stored = Undecodable | Text string

datatype error = FileNotFoundError | UnicodeDecodeError

fun universal_newlines :: "string \<Rightarrow> string" where
  "universal_newlines [] = []"
| "universal_newlines [c] = (if c = CHR 0x0D then [CHR 0x0A] else [c])"
| "universal_newlines (c # d # ds) =
     (if c = CHR 0x0D \<and> d = CHR 0x0A then CHR 0x0A # universal_newlines ds
      else if c = CHR 0x0D then CHR 0x0A # universal_newlines (d # ds)
      else c # universal_newlines (d # ds))"

definition read_text :: "(string \<rightharpoonup> stored) \<Rightarrow> string \<Rightarrow> error + string" where
  \<comment> \<open>\<^verbatim>\<open>with open(path, 'r') as f: content = f.read()\<close>\<close>
  "read_text disk path =
     (case disk path of
        None \<Rightarrow> Inl FileNotFoundError
      | Some Undecodable \<Rightarrow> Inl UnicodeDecodeError
      | Some (Text raw) \<Rightarrow> Inr (universal_newlines raw))"

definition write_text :: "(string \<rightharpoonup> stored) \<Rightarrow> string \<Rightarrow> string \<Rightarrow> (string \<rightharpoonup> stored)" where
  \<comment> \<open>\<^verbatim>\<open>with open(path, 'w') as f: f.write(content)\<close>\<close>
  "write_text disk path content = disk(path \<mapsto> Text content)"

definition add_files_to_xcode_project ::
  "(string \<Rightarrow> bool) \<Rightarrow> (nat \<Rightarrow> 128 word) \<Rightarrow> (string \<rightharpoonup> stored)
     \<Rightarrow> error + (string \<rightharpoonup> stored) \<times> string list"
where
  \<comment> \<open>the script as it is run: \<open>disk\<close> maps a path to what is stored there\<close>
  "add_files_to_xcode_project path_exists rnd disk =
     (case read_text disk project_file of
        Inl e \<Rightarrow> Inl e
      | Inr content \<Rightarrow>
          let out = register_files path_exists rnd files_to_add content
          in Inr (case written out of
                    None \<Rightarrow> disk
                  | Some c \<Rightarrow> write_text disk project_file c,
                  console out))"

section \<open>One file with fixed identities: \<^verbatim>\<open>add_quick_components.py\<close>\<close>

definition quick_file_uuid :: string where
  "quick_file_uuid = ''A1B2C3D4E5F67890ABCDEF12''"

definition quick_build_uuid :: string where
  "quick_build_uuid = ''F1E2D3C4B5A69780FEDCBA21''"

definition quick_name :: string where
  "quick_name = ''QuickComponents.swift''"

definition quick_insert_source :: "string \<Rightarrow> string" where
  "quick_insert_source content =
     (let sources_pos = py_find content sources_marker 0
      in if sources_pos \<noteq> - 1
         then let files_pos = py_find content ''files = ('' sources_pos
              in if files_pos \<noteq> - 1
                 then let end_pos = py_find content '');'' files_pos
                      in slice_to content end_pos @ sources_line quick_build_uuid quick_name @ nl
                           @ slice_from content end_pos
                 else content
         else content)"

definition quick_patch :: "string \<Rightarrow> string" where
  \<comment> \<open>the three edits; the script's f-strings are the templates above at the fixed identities\<close>
  "quick_patch content =
     quick_insert_source
       (replace_str build_file_marker
          (build_file_line quick_build_uuid quick_file_uuid quick_name @ nl @ build_file_marker)
          (replace_str file_ref_marker
             (file_ref_line quick_file_uuid quick_name @ nl @ file_ref_marker) content))"

definition add_quick_components ::
  "(string \<rightharpoonup> stored) \<Rightarrow> error + (string \<rightharpoonup> stored) \<times> string list"
where
  "add_quick_components disk =
     (case read_text disk project_file of
        Inl e \<Rightarrow> Inl e
      | Inr content \<Rightarrow>
          if py_in quick_name content
          then Inr (disk, [''QuickComponents.swift already in project''])
          else Inr (write_text disk project_file (quick_patch content),
                    [''Added QuickComponents.swift to project'']))"

section \<open>Auxiliary notions\<close>

text \<open>
  Two states of the loop with the same three buffers that reach the manifest and the same
  identities minted; the console and the dictionary of group hints may differ.
\<close>

definition same_buffers :: "staged \<Rightarrow> staged \<Rightarrow> bool" where
  "same_buffers a b =
     (file_refs_section a = file_refs_section b \<and>
      build_files_section a = build_files_section b \<and>
      sources_build_phase a = sources_build_phase b \<and>
      minted a = minted b)"

text \<open>
  The manifest after the two record insertions, on which the build-phase splice works;
  and the case in which that splice is made although its search for the closing
  \<^verbatim>\<open>);\<close> has failed, so that the \<open>-1\<close> of the failed \<^verbatim>\<open>find\<close> is used as the
  slice bound.
\<close>

definition with_records :: "staged \<Rightarrow> string \<Rightarrow> string" where
  "with_records st content =
     insert_before_marker build_file_marker (build_files_section st)
       (insert_before_marker file_ref_marker (file_refs_section st) content)"

definition end_bracket_missing :: "string \<Rightarrow> bool" where
  "end_bracket_missing content =
     (py_in sources_marker content \<and>
      py_find content ''files = ('' (py_find content sources_marker 0) \<noteq> - 1 \<and>
      py_find content '');'' (py_find content ''files = ('' (py_find content sources_marker 0))
        = - 1)"

section \<open>What the specification asks of the insertions\<close>

text \<open>
  The specification describes the edits by where the fragments go: the joined lines of a
  record section are spliced in immediately before the end marker of the section, and
  the build-phase lines immediately before the closing token of the list that follows
  the opening token of the build phase. The relations below say this of an input text
  and an output text, without searching: \<open>first_from sub s start k\<close> says that \<open>k\<close> is
  the first position at or after \<open>start\<close> at which \<open>sub\<close> occurs in \<open>s\<close>. Where the
  marker of a section does not occur the text is to stay as it is, which is what the
  code does there. Where the build-phase list is found and its closing token is not, the
  relation only asks that the lines are spliced in somewhere.
\<close>

definition first_from :: "string \<Rightarrow> string \<Rightarrow> nat \<Rightarrow> nat \<Rightarrow> bool" where
  "first_from sub s start k =
     (start \<le> k \<and> k \<le> length s \<and> prefix sub (drop k s) \<and>
      (\<forall>j. start \<le> j \<and> j < k \<longrightarrow> \<not> prefix sub (drop j s)))"

definition spliced_at :: "nat \<Rightarrow> string list \<Rightarrow> string \<Rightarrow> string" where
  "spliced_at k lines s = take k s @ py_join nl lines @ nl @ drop k s"

definition record_section_spliced :: "string \<Rightarrow> string list \<Rightarrow> string \<Rightarrow> string \<Rightarrow> bool" where
  "record_section_spliced marker lines s out =
     (if sublist marker s
      then \<exists>k. first_from marker s 0 k \<and> out = spliced_at k lines s
      else out = s)"

definition build_phase_spliced :: "string list \<Rightarrow> string \<Rightarrow> string \<Rightarrow> bool" where
  "build_phase_spliced lines s out =
     (if \<exists>k0 k1. first_from sources_marker s 0 k0 \<and> first_from ''files = ('' s k0 k1
      then \<exists>k0 k1 k. first_from sources_marker s 0 k0 \<and> first_from ''files = ('' s k0 k1 \<and>
             k \<le> length s \<and> out = spliced_at k lines s \<and>
             ((\<exists>k'. first_from '');'' s k1 k') \<longrightarrow> first_from '');'' s k1 k)
      else out = s)"

definition patched_as_specified ::
  "string list \<Rightarrow> string list \<Rightarrow> string list \<Rightarrow> string \<Rightarrow> string \<Rightarrow> bool"
where
  "patched_as_specified refs builds phase s out =
     (\<exists>a b. record_section_spliced file_ref_marker refs s a \<and>
            record_section_spliced build_file_marker builds a b \<and>
            build_phase_spliced phase b out)"

text \<open>
  \<^verbatim>\<open>add_quick_components.py\<close> uses \<^verbatim>\<open>replace\<close> for the two record sections, which puts
  the new line before every occurrence of the marker, found from the left and without
  overlap: the text is cut at these occurrences into pieces, and the pieces are joined
  again with the line, a line feed and the marker between them.
\<close>

definition every_marker_spliced :: "string \<Rightarrow> string \<Rightarrow> string \<Rightarrow> string \<Rightarrow> bool" where
  "every_marker_spliced marker line s out =
     (\<exists>pieces. pieces \<noteq> [] \<and> s = py_join marker pieces \<and>
        out = py_join (line @ nl @ marker) pieces \<and>
        (\<forall>p\<in>set (butlast pieces). \<not> sublist marker (p @ butlast marker)) \<and>
        \<not> sublist marker (last pieces))"

definition quick_patched_as_specified :: "string \<Rightarrow> string \<Rightarrow> bool" where
  "quick_patched_as_specified s out =
     (\<exists>a b. every_marker_spliced file_ref_marker (file_ref_line quick_file_uuid quick_name) s a \<and>
            every_marker_spliced build_file_marker
              (build_file_line quick_build_uuid quick_file_uuid quick_name) a b \<and>
            build_phase_spliced [sources_line quick_build_uuid quick_name] b out)"

text \<open>
  The entries a call registers, by the two tests of the loop: those whose path exists,
  numbered from 0 in the order of the list, of which those are kept whose display name
  does not occur in the text read. The entry numbered \<open>i\<close> is given the identities of
  the draws \<open>2 * i\<close> and \<open>2 * i + 1\<close>.
\<close>

definition staged_names :: "(string \<Rightarrow> bool) \<Rightarrow> string \<Rightarrow> (string \<times> string) list \<Rightarrow> (nat \<times> string) list" where
  "staged_names path_exists content entries =
     filter (\<lambda>(i, name). \<not> sublist name content)
       (enumerate 0 (map (\<lambda>e. basename (fst e)) (filter (\<lambda>e. path_exists (fst e)) entries)))"

section \<open>Facts about the string primitives\<close>

lemma py_join_chars: "py_join [] (map (\<lambda>c. [c]) xs) = xs"
  by (induction xs rule: induct_list012) auto

lemma replace_char_by_nothing: "replace_str [c] [] s = filter (\<lambda>x. x \<noteq> c) s"
proof (induction s)
  case Nil
  show ?case by (simp add: replace_str.simps)
next
  case (Cons x xs)
  show ?case
    using Cons by (subst replace_str.simps) auto
qed

lemma slice_to_nonneg: "0 \<le> i \<Longrightarrow> slice_to s i = take (nat i) s"
  by (simp add: slice_to_def py_index_def min_def)

lemma slice_at: "k \<le> length s \<Longrightarrow> slice_to s (int k) = take k s \<and> slice_from s (int k) = drop k s"
  by (simp add: slice_to_def slice_from_def py_index_def)

lemma slice_append: "slice_to s i @ slice_from s i = s"
  by (simp add: slice_to_def slice_from_def)

lemma find_first_None: "find_first sub s = None \<longleftrightarrow> \<not> sublist sub s"
  by (induction s) (auto simp: sublist_Cons_right)

lemma find_first_Some:
  "find_first sub s = Some i \<Longrightarrow> i \<le> length s \<and> prefix sub (drop i s)"
  by (induction s arbitrary: i) (auto split: if_splits)

lemma py_in_sublist: "py_in sub s \<longleftrightarrow> sublist sub s"
proof -
  have "py_in sub s \<longleftrightarrow> find_first sub s \<noteq> None"
    by (simp add: py_in_def py_find_def split: option.splits)
  then show ?thesis by (simp add: find_first_None)
qed

lemma py_find_cases:
  assumes "0 \<le> start" "start \<le> int (length s)"
  shows "py_find s sub start = - 1 \<and> \<not> sublist sub (drop (nat start) s) \<or>
         (\<exists>k. py_find s sub start = int k \<and> nat start \<le> k \<and> k \<le> length s \<and> prefix sub (drop k s))"
proof (cases "find_first sub (drop (nat start) s)")
  case None
  then have "py_find s sub start = - 1" using assms by (simp add: py_find_def)
  moreover from None have "\<not> sublist sub (drop (nat start) s)" by (simp add: find_first_None)
  ultimately show ?thesis by simp
next
  case (Some i)
  from find_first_Some [OF Some] have i: "i \<le> length s - nat start" "prefix sub (drop (nat start + i) s)"
    by (simp_all add: add.commute)
  have "py_find s sub start = int (nat start + i)"
    using assms Some by (simp add: py_find_def)
  moreover have "nat start + i \<le> length s" using i(1) assms by linarith
  ultimately have "py_find s sub start = int (nat start + i) \<and> nat start \<le> nat start + i
      \<and> nat start + i \<le> length s \<and> prefix sub (drop (nat start + i) s)"
    using i(2) by simp
  then show ?thesis by blast
qed

lemma py_find_found:
  assumes "0 \<le> start" "start \<le> int (length s)" "py_find s sub start \<noteq> - 1"
  obtains k where "py_find s sub start = int k" "k \<le> length s" "prefix sub (drop k s)"
  using py_find_cases [OF assms(1,2), of sub] assms(3) by auto

lemma basename_no_slash: "CHR ''/'' \<notin> set (basename p)"
  unfolding basename_def using set_takeWhileD by fastforce

lemma sublist_trans: "sublist a b \<Longrightarrow> sublist b c \<Longrightarrow> sublist a c"
proof -
  assume "sublist a b" "sublist b c"
  then obtain ps ss ps' ss' where "b = ps @ a @ ss" "c = ps' @ b @ ss'"
    unfolding sublist_def by blast
  then have "c = (ps' @ ps) @ a @ (ss @ ss')" by simp
  then show ?thesis unfolding sublist_def by blast
qed

lemma sublist_in_middle: "sublist n x \<Longrightarrow> sublist n (a @ x @ b)"
  by (erule sublist_trans) simp

lemma sublist_in_right: "sublist n b \<Longrightarrow> sublist n (a @ x @ b)"
proof -
  assume "sublist n b"
  moreover have "sublist b ((a @ x) @ b)" by (rule sublist_append_leftI)
  ultimately have "sublist n ((a @ x) @ b)" by (rule sublist_trans)
  then show ?thesis by simp
qed

lemma sublist_in_left: "sublist n a \<Longrightarrow> sublist n (a @ x)"
  by (erule sublist_trans) simp

lemma sublist_split_char:
  assumes "sublist n (ys @ c # zs)" "c \<notin> set n"
  shows "sublist n ys \<or> sublist n (c # zs)"
proof -
  from assms(1) consider "sublist n ys" | "sublist n (c # zs)"
    | xs1 xs2 where "n = xs1 @ xs2" "suffix xs1 ys" "prefix xs2 (c # zs)"
    unfolding sublist_append by blast
  then show ?thesis
  proof cases
    case 3
    show ?thesis
    proof (cases xs2)
      case Nil
      with 3 have "suffix n ys" by simp
      then show ?thesis by (auto simp: suffix_def)
    next
      case (Cons x xs)
      with 3(3) have "x = c" by simp
      with 3(1) Cons assms(2) show ?thesis by simp
    qed
  qed simp_all
qed

lemma splice_keeps:
  assumes "sublist n s" "prefix (c # m) (drop k s)" "c \<notin> set n"
  shows "sublist n (take k s @ x @ drop k s)"
proof -
  from assms(2) obtain zs where d: "drop k s = c # zs" by (auto simp: prefix_def)
  have "sublist n (take k s @ c # zs)"
    using assms(1) d by (metis append_take_drop_id)
  then have "sublist n (take k s) \<or> sublist n (c # zs)"
    using assms(3) by (rule sublist_split_char)
  then show ?thesis
  proof
    assume "sublist n (take k s)"
    then show ?thesis by (rule sublist_in_left)
  next
    assume "sublist n (c # zs)"
    then have "sublist n (drop k s)" by (simp only: d)
    then show ?thesis by (rule sublist_in_right)
  qed
qed

lemma in_py_join: "l \<in> set sec \<Longrightarrow> sublist l (py_join sep sec)"
proof (induction sep sec rule: py_join.induct)
  case (1 sep)
  then show ?case by simp
next
  case (2 sep x)
  then show ?case by simp
next
  case (3 sep x y ys)
  show ?case
  proof (cases "l = x")
    case True
    then show ?thesis by simp
  next
    case False
    with 3 have "sublist l (py_join sep (y # ys))" by simp
    then have "sublist l (x @ sep @ py_join sep (y # ys))" by (rule sublist_in_right)
    then show ?thesis by (simp only: py_join.simps)
  qed
qed

lemma splice_adds:
  assumes "l \<in> set sec" "sublist n l"
  shows "sublist n (a @ py_join nl sec @ nl @ b)"
proof -
  have "sublist n (py_join nl sec)"
    using assms(2) in_py_join [OF assms(1)] by (rule sublist_trans)
  then have "sublist n (py_join nl sec @ nl)" by (rule sublist_in_left)
  then have "sublist n (a @ (py_join nl sec @ nl) @ b)" by (rule sublist_in_middle)
  then show ?thesis by simp
qed

lemma spliced_step:
  assumes "prefix (c # m) (drop k s)" and "c \<notin> set n"
    and "py_in n s \<or> (\<exists>l\<in>set sec. sublist n l)"
  shows "py_in n (take k s @ py_join nl sec @ nl @ drop k s)"
  using assms(3)
proof
  assume "py_in n s"
  then have "sublist n s" by (simp only: py_in_sublist)
  then have "sublist n (take k s @ (py_join nl sec @ nl) @ drop k s)"
    using assms(1,2) by (rule splice_keeps)
  then show ?thesis by (simp add: py_in_sublist)
next
  assume "\<exists>l\<in>set sec. sublist n l"
  then obtain l where "l \<in> set sec" "sublist n l" by blast
  then have "sublist n (take k s @ py_join nl sec @ nl @ drop k s)"
    by (rule splice_adds)
  then show ?thesis by (simp only: py_in_sublist)
qed

lemma subseq_slice_insert: "subseq s (slice_to s i @ x @ slice_from s i)"
proof -
  have "subseq (slice_to s i @ slice_from s i) (slice_to s i @ x @ slice_from s i)"
    by (intro list_emb_append_mono subseq_order.refl list_emb_append2)
  then show ?thesis by (simp only: slice_append)
qed

lemma subseq_slice_insert2: "subseq s (slice_to s i @ x @ y @ slice_from s i)"
  using subseq_slice_insert [of s i "x @ y"] by simp

lemma subseq_replace_keeping: "subseq s (replace_str old (x @ old) s)"
proof (induction old "x @ old" s rule: replace_str.induct)
  case (1 old s)
  show ?case
  proof (cases "old = []")
    case True
    have "subseq s (concat (map (\<lambda>c. c # x) s))"
      by (induction s) auto
    then show ?thesis using True
      by (subst replace_str.simps) (simp add: list_emb_append2)
  next
    case False
    show ?thesis
    proof (cases "s = []")
      case True
      then show ?thesis by (subst replace_str.simps) simp
    next
      case ne: False
      show ?thesis
      proof (cases "prefix old s")
        case True
        then obtain r where "s = old @ r" by (auto elim: prefixE)
        then have s: "s = old @ drop (length old) s" by simp
        have "subseq (old @ drop (length old) s)
            (x @ old @ replace_str old (x @ old) (drop (length old) s))"
          using 1(1) [OF False ne True]
          by (intro list_emb_append2 list_emb_append_mono subseq_order.refl)
        then have "subseq s (x @ old @ replace_str old (x @ old) (drop (length old) s))"
          using s by simp
        then show ?thesis using False ne True
          by (subst replace_str.simps) simp
      next
        case np: False
        obtain c cs where cs: "s = c # cs" using ne by (cases s) auto
        have "subseq cs (replace_str old (x @ old) cs)"
          using 1(2) [OF False ne np] cs by simp
        then show ?thesis using False ne np cs
          by (subst replace_str.simps) simp
      qed
    qed
  qed
qed

section \<open>Facts about the identity generator\<close>

text \<open>
  The identity is the first 24 of the 32 hexadecimal digits of the UUID, in upper case:
  it is decided by the leading 96 bits of the UUID, and decides them.
\<close>

lemma hex_digits_length: "length (hex_digits k n) = k"
  by (induction k arbitrary: n) auto

lemma hex_char_lower: "d < 16 \<Longrightarrow> hex_char d \<in> set ''0123456789abcdef''"
  unfolding hex_char_def by (rule nth_mem) simp

lemma hex_digits_lower: "set (hex_digits k n) \<subseteq> set ''0123456789abcdef''"
proof (induction k arbitrary: n)
  case 0
  show ?case by simp
next
  case (Suc k)
  have "nat (n mod 16) < 16" by simp
  then have "hex_char (nat (n mod 16)) \<in> set ''0123456789abcdef''"
    by (rule hex_char_lower)
  with Suc [of "n div 16"] show ?case by simp
qed

lemma upper_hex_table: "map upper_char ''0123456789abcdef'' = ''0123456789ABCDEF''"
  by code_simp

lemma upper_char_hex:
  assumes "c \<in> set ''0123456789abcdef''"
  shows "upper_char c \<in> set ''0123456789ABCDEF''"
proof -
  from assms have "upper_char c \<in> set (map upper_char ''0123456789abcdef'')"
    by (simp only: set_map) (rule imageI)
  then show ?thesis by (simp only: upper_hex_table)
qed

lemma upper_hex_digits: "set (map upper_char (hex_digits k n)) \<subseteq> set ''0123456789ABCDEF''"
  using hex_digits_lower [of k n] upper_char_hex by (auto simp only: set_map)

lemma take_drop_groups:
  "take 8 h @ take 4 (drop 8 h) @ take 4 (drop 12 h) @ take 4 (drop 16 h) @ drop 20 h = h"
proof -
  have a: "take 8 h @ take 4 (drop 8 h) = take 12 h"
    using take_add [of 8 4 h] by simp
  have b: "take 12 h @ take 4 (drop 12 h) = take 16 h"
    using take_add [of 12 4 h] by simp
  have c: "take 16 h @ take 4 (drop 16 h) = take 20 h"
    using take_add [of 16 4 h] by simp
  have "take 8 h @ take 4 (drop 8 h) @ take 4 (drop 12 h) @ take 4 (drop 16 h) @ drop 20 h
      = ((((take 8 h @ take 4 (drop 8 h)) @ take 4 (drop 12 h)) @ take 4 (drop 16 h)) @ drop 20 h)"
    by simp
  also have "\<dots> = h" by (simp only: a b c append_take_drop_id)
  finally show ?thesis .
qed

lemma filter_keeps: "c \<notin> set xs \<Longrightarrow> filter (\<lambda>x. x \<noteq> c) (take k (drop j xs)) = take k (drop j xs)"
  by (rule filter_True) (auto dest: in_set_takeD in_set_dropD)

lemma filter_keeps_drop: "c \<notin> set xs \<Longrightarrow> filter (\<lambda>x. x \<noteq> c) (drop j xs) = drop j xs"
  by (rule filter_True) (auto dest: in_set_dropD)

lemma filter_keeps_take: "c \<notin> set xs \<Longrightarrow> filter (\<lambda>x. x \<noteq> c) (take j xs) = take j xs"
  by (rule filter_True) (auto dest: in_set_takeD)

lemma uuid_str_undashed:
  "filter (\<lambda>x. x \<noteq> CHR ''-'') (py_upper (uuid_str u)) = map upper_char (hex_digits 32 u)"
proof -
  let ?U = "map upper_char (hex_digits 32 u)"
  have nd: "CHR ''-'' \<notin> set ?U"
    using upper_hex_digits [of 32 u] by auto
  have "py_upper (uuid_str u) =
      take 8 ?U @ ''-'' @ take 4 (drop 8 ?U) @ ''-'' @ take 4 (drop 12 ?U)
        @ ''-'' @ take 4 (drop 16 ?U) @ ''-'' @ drop 20 ?U"
    by (simp add: py_upper_def uuid_str_def Let_def take_map drop_map upper_char_def)
  then have "filter (\<lambda>x. x \<noteq> CHR ''-'') (py_upper (uuid_str u)) =
      take 8 ?U @ take 4 (drop 8 ?U) @ take 4 (drop 12 ?U) @ take 4 (drop 16 ?U) @ drop 20 ?U"
    by (simp add: filter_keeps [OF nd] filter_keeps_drop [OF nd] filter_keeps_take [OF nd])
  then show ?thesis by (simp only: take_drop_groups)
qed

lemma generate_xcode_uuid_eq:
  "generate_xcode_uuid r = take 24 (map upper_char (hex_digits 32 (uuid4_int r)))"
  by (simp add: generate_xcode_uuid_def py_join_chars replace_char_by_nothing
      uuid_str_undashed slice_to_nonneg)

lemma uuid4_int_bounds: "0 \<le> uuid4_int r \<and> uuid4_int r < 2 ^ 128"
proof -
  let ?a = "uint r AND NOT (push_bit 48 0xc000)"
  let ?b = "?a OR push_bit 48 0x8000"
  let ?c = "?b AND NOT (push_bit 64 0xf000)"
  have r: "0 \<le> uint r" "uint r < 2 ^ 128"
    using uint_lt2p [of r] by simp_all
  have a0: "0 \<le> ?a" using r(1) by simp
  have a1: "?a < 2 ^ 128" using r by (rule AND_upper1'')
  have p1: "push_bit 48 (0xc000 :: int) \<ge> 0" "push_bit 48 (0x8000 :: int) \<ge> 0"
    "push_bit 48 (0x8000 :: int) < 2 ^ 128" "push_bit 76 (4 :: int) \<ge> 0"
    "push_bit 76 (4 :: int) < 2 ^ 128"
    by simp_all
  have b0: "0 \<le> ?b" using a0 p1(2) by (simp only: or_nonnegative_int_iff)
  have b1: "?b < 2 ^ 128" using a0 a1 p1(3) by (rule OR_upper)
  have c0: "0 \<le> ?c" using b0 by (simp only: and_nonnegative_int_iff) simp
  have c1: "?c < 2 ^ 128" using b0 b1 by (rule AND_upper1'')
  have "0 \<le> ?c OR push_bit 76 4" using c0 p1(4) by (simp only: or_nonnegative_int_iff)
  moreover have "?c OR push_bit 76 4 < 2 ^ 128" using c0 c1 p1(5) by (rule OR_upper)
  ultimately show ?thesis by (simp only: uuid4_int_def)
qed

lemma high_bounds:
  "(0::int) \<le> x \<Longrightarrow> x < 2 ^ 128 \<Longrightarrow> 0 \<le> x div 2 ^ 32 \<and> x div 2 ^ 32 < 16 ^ 24"
  by (simp add: pos_imp_zdiv_nonneg_iff)

lemma uuid4_int_high_bounds:
  "0 \<le> uuid4_int r div 2 ^ 32 \<and> uuid4_int r div 2 ^ 32 < 16 ^ 24"
  using uuid4_int_bounds [of r] by (intro high_bounds) simp_all

lemma take_hex_digits: "take k (hex_digits (k + j) n) = hex_digits k (n div 16 ^ j)"
proof (induction j arbitrary: n)
  case 0
  show ?case by (simp add: hex_digits_length)
next
  case (Suc j)
  have "take k (hex_digits (k + Suc j) n) = take k (hex_digits (k + j) (n div 16))"
    by (simp add: hex_digits_length)
  also have "\<dots> = hex_digits k (n div 16 div 16 ^ j)" by (rule Suc)
  also have "n div 16 div 16 ^ j = n div 16 ^ Suc j"
    by (simp add: zdiv_zmult2_eq)
  finally show ?case .
qed

lemma hex_char_inj: "d < 16 \<Longrightarrow> d' < 16 \<Longrightarrow> hex_char d = hex_char d' \<Longrightarrow> d = d'"
  unfolding hex_char_def by (subst (asm) nth_eq_iff_index_eq) simp_all

lemma hex_digits_inj:
  "hex_digits k a = hex_digits k b \<Longrightarrow> a mod 16 ^ k = b mod 16 ^ k"
proof (induction k arbitrary: a b)
  case 0
  show ?case by simp
next
  case (Suc k)
  from Suc.prems have hi: "hex_digits k (a div 16) = hex_digits k (b div 16)"
    and lo: "hex_char (nat (a mod 16)) = hex_char (nat (b mod 16))"
    by simp_all
  have "nat (a mod 16) = nat (b mod 16)"
    by (rule hex_char_inj [OF _ _ lo]) simp_all
  then have lo': "a mod 16 = b mod 16" by simp
  have hi': "a div 16 mod 16 ^ k = b div 16 mod 16 ^ k"
    using hi by (rule Suc.IH)
  have "a mod (16 * 16 ^ k) = 16 * (a div 16 mod 16 ^ k) + a mod 16"
    by (rule zmod_zmult2_eq) simp
  moreover have "b mod (16 * 16 ^ k) = 16 * (b div 16 mod 16 ^ k) + b mod 16"
    by (rule zmod_zmult2_eq) simp
  ultimately show ?case using lo' hi' by simp
qed

lemma upper_char_inj_hex: "inj_on upper_char (set ''0123456789abcdef'')"
proof -
  have "distinct (map upper_char ''0123456789abcdef'')"
    by (simp only: upper_hex_table) simp
  then show ?thesis by (simp only: distinct_map)
qed

lemma generate_xcode_uuid_hex24:
  "generate_xcode_uuid r = map upper_char (hex_digits 24 (uuid4_int r div 2 ^ 32))"
proof -
  have "take 24 (hex_digits 32 (uuid4_int r)) = hex_digits 24 (uuid4_int r div 16 ^ 8)"
    using take_hex_digits [of 24 8 "uuid4_int r"] by simp
  then show ?thesis by (simp add: generate_xcode_uuid_eq take_map)
qed

lemma generate_xcode_uuid_eq_iff:
  "generate_xcode_uuid r = generate_xcode_uuid r'
     \<longleftrightarrow> uuid4_int r div 2 ^ 32 = uuid4_int r' div 2 ^ 32"
proof
  let ?u = "uuid4_int r div 2 ^ 32" and ?u' = "uuid4_int r' div 2 ^ 32"
  assume "generate_xcode_uuid r = generate_xcode_uuid r'"
  then have m: "map upper_char (hex_digits 24 ?u) = map upper_char (hex_digits 24 ?u')"
    by (simp only: generate_xcode_uuid_hex24)
  have "inj_on upper_char (set (hex_digits 24 ?u) \<union> set (hex_digits 24 ?u'))"
    by (rule inj_on_subset [OF upper_char_inj_hex]) (use hex_digits_lower in blast)
  with m have "hex_digits 24 ?u = hex_digits 24 ?u'"
    by (simp only: inj_on_map_eq_map)
  then have eq: "?u mod 16 ^ 24 = ?u' mod 16 ^ 24" by (rule hex_digits_inj)
  have "0 \<le> ?u \<and> ?u < 16 ^ 24" "0 \<le> ?u' \<and> ?u' < 16 ^ 24"
    by (rule uuid4_int_high_bounds)+
  then have "?u mod 16 ^ 24 = ?u" "?u' mod 16 ^ 24 = ?u'"
    by (simp_all only: mod_pos_pos_trivial)
  then show "?u = ?u'" using eq by simp
next
  assume "uuid4_int r div 2 ^ 32 = uuid4_int r' div 2 ^ 32"
  then show "generate_xcode_uuid r = generate_xcode_uuid r'"
    by (simp only: generate_xcode_uuid_hex24)
qed

lemma gen_zero: "generate_xcode_uuid 0 = ''000000000000400080000000''"
  by code_simp

lemma gen_one: "generate_xcode_uuid 1 = ''000000000000400080000000''"
  by code_simp

section \<open>Facts about the staging loop\<close>

text \<open>
  The loop body has three outcomes, by the two tests it makes: the path is missing, the
  display name is already in the text, or the entry is staged.
\<close>

lemma stage_entry_missing:
  "\<not> pe p \<Longrightarrow> stage_entry pe rnd T st (p, g)
     = st\<lparr>printed := printed st @ [''Warning: '' @ p @ '' does not exist'']\<rparr>"
  by (simp add: stage_entry_def)

lemma stage_entry_present:
  "pe p \<Longrightarrow> py_in (basename p) T \<Longrightarrow> stage_entry pe rnd T st (p, g)
     = st\<lparr>minted := minted st @ [generate_xcode_uuid (rnd (length (minted st))),
                                  generate_xcode_uuid (rnd (length (minted st) + 1))],
           printed := printed st @ [''Skipping '' @ basename p @ '' - already in project'']\<rparr>"
  by (simp add: stage_entry_def Let_def)

lemma stage_entry_new:
  "pe p \<Longrightarrow> \<not> py_in (basename p) T \<Longrightarrow> stage_entry pe rnd T st (p, g)
     = st\<lparr>minted := minted st @ [generate_xcode_uuid (rnd (length (minted st))),
                                  generate_xcode_uuid (rnd (length (minted st) + 1))],
           file_refs_section := file_refs_section st
             @ [file_ref_line (generate_xcode_uuid (rnd (length (minted st)))) (basename p)],
           build_files_section := build_files_section st
             @ [build_file_line (generate_xcode_uuid (rnd (length (minted st) + 1)))
                  (generate_xcode_uuid (rnd (length (minted st)))) (basename p)],
           group_children := add_child g
             (group_child_line (generate_xcode_uuid (rnd (length (minted st)))) (basename p))
             (group_children st),
           sources_build_phase := sources_build_phase st
             @ [sources_line (generate_xcode_uuid (rnd (length (minted st) + 1))) (basename p)],
           printed := printed st @ [''Adding: '' @ basename p @ '' to '' @ g @ '' group'']\<rparr>"
  by (simp add: stage_entry_def Let_def)

lemma stage_entries_snoc:
  "stage_entries pe rnd T (E @ [e]) = stage_entry pe rnd T (stage_entries pe rnd T E) e"
  by (simp add: stage_entries_def)

lemma stage_entry_cases:
  obtains (missing) "\<not> pe (fst e)"
  | (present) "pe (fst e)" "py_in (basename (fst e)) T"
  | (new) "pe (fst e)" "\<not> py_in (basename (fst e)) T"
  by blast

lemma staged_lengths:
  "length (file_refs_section (stage_entries pe rnd T E))
     = length (filter (\<lambda>e. pe (fst e) \<and> \<not> py_in (basename (fst e)) T) E)"
proof (induction E rule: rev_induct)
  case Nil
  show ?case by (simp add: stage_entries_def no_staged_def)
next
  case (snoc e E)
  obtain p g where e: "e = (p, g)" by (cases e)
  show ?case
  proof (cases rule: stage_entry_cases [where pe = pe and e = e and T = T])
    case missing
    then show ?thesis using snoc by (simp add: e stage_entries_snoc stage_entry_missing)
  next
    case present
    then show ?thesis using snoc by (simp add: e stage_entries_snoc stage_entry_present)
  next
    case new
    then show ?thesis using snoc by (simp add: e stage_entries_snoc stage_entry_new)
  qed
qed

lemma nothing_staged:
  "file_refs_section (stage_entries pe rnd T E) = []
     \<longleftrightarrow> (\<forall>e\<in>set E. \<not> (pe (fst e) \<and> \<not> py_in (basename (fst e)) T))"
proof -
  have "file_refs_section (stage_entries pe rnd T E) = []
      \<longleftrightarrow> filter (\<lambda>e. pe (fst e) \<and> \<not> py_in (basename (fst e)) T) E = []"
    using staged_lengths [of pe rnd T E] by (simp only: length_0_conv [symmetric])
  then show ?thesis by (simp add: filter_empty_conv)
qed


lemma minted_stage_entries:
  "minted (stage_entries pe rnd T E)
     = map (\<lambda>i. generate_xcode_uuid (rnd i)) [0..<2 * length (filter (\<lambda>e. pe (fst e)) E)]"
proof (induction E rule: rev_induct)
  case Nil
  show ?case by (simp add: stage_entries_def no_staged_def)
next
  case (snoc e E)
  obtain p g where e: "e = (p, g)" by (cases e)
  let ?k = "length (filter (\<lambda>e. pe (fst e)) E)"
  have len: "length (minted (stage_entries pe rnd T E)) = 2 * ?k"
    by (simp add: snoc)
  have up: "[0..<2 * Suc ?k] = [0..<2 * ?k] @ [2 * ?k, Suc (2 * ?k)]"
    by simp
  show ?case
  proof (cases rule: stage_entry_cases [where pe = pe and e = e and T = T])
    case missing
    then show ?thesis using snoc by (simp add: e stage_entries_snoc stage_entry_missing)
  next
    case present
    then show ?thesis using snoc len
      by (simp add: e stage_entries_snoc stage_entry_present)
  next
    case new
    then show ?thesis using snoc len
      by (simp add: e stage_entries_snoc stage_entry_new)
  qed
qed


lemma same_buffers_printed: "same_buffers (a\<lparr>printed := x\<rparr>) a"
  by (simp add: same_buffers_def)

lemma stage_entry_same_buffers:
  assumes "same_buffers a b"
  shows "same_buffers (stage_entry pe rnd T a (p, g)) (stage_entry pe rnd T b (p, g'))"
proof (cases rule: stage_entry_cases [where pe = pe and e = "(p, g)" and T = T])
  case missing
  then show ?thesis using assms by (simp add: stage_entry_missing same_buffers_def)
next
  case present
  then show ?thesis using assms by (simp add: stage_entry_present same_buffers_def)
next
  case new
  then show ?thesis using assms by (simp add: stage_entry_new same_buffers_def)
qed

lemma foldl_same_buffers:
  "same_buffers a b \<Longrightarrow>
     same_buffers (foldl (stage_entry pe rnd T) a E)
       (foldl (stage_entry pe rnd T) b (map (\<lambda>e. (fst e, h (snd e))) E))"
proof (induction E arbitrary: a b)
  case Nil
  then show ?case by simp
next
  case (Cons e E)
  obtain p g where e: "e = (p, g)" by (cases e)
  have "same_buffers (stage_entry pe rnd T a (p, g)) (stage_entry pe rnd T b (p, h g))"
    using Cons.prems by (rule stage_entry_same_buffers)
  then show ?case using Cons.IH by (simp add: e)
qed

lemma foldl_same_buffers_id:
  "same_buffers a b \<Longrightarrow>
     same_buffers (foldl (stage_entry pe rnd T) a E) (foldl (stage_entry pe rnd T) b E)"
  using foldl_same_buffers [where h = "\<lambda>g. g" and E = E] by simp

lemma same_buffers_outcome:
  assumes "same_buffers (stage_entries pe rnd T E) (stage_entries pe' rnd' T E')"
  shows "written (register_files pe rnd E T) = written (register_files pe' rnd' E' T) \<and>
         minted_ids (register_files pe rnd E T) = minted_ids (register_files pe' rnd' E' T)"
  using assms by (simp add: register_files_def Let_def same_buffers_def patch_def)









lemma name_in_file_ref_line: "sublist n (file_ref_line fid n)"
proof -
  have "file_ref_line fid n = (tab @ tab @ fid @ '' /* '') @ n
      @ ('' */ = {isa = PBXFileReference; lastKnownFileType = sourcecode.swift; path = ''
         @ n @ ''; sourceTree = \"<group>\"; };'')"
    by (simp add: file_ref_line_def)
  then show ?thesis by (simp only: sublist_appendI)
qed

lemma name_in_build_file_line: "sublist n (build_file_line bid fid n)"
proof -
  have "build_file_line bid fid n = (tab @ tab @ bid @ '' /* '') @ n
      @ ('' in Sources */ = {isa = PBXBuildFile; fileRef = '' @ fid
         @ '' /* '' @ n @ '' */; };'')"
    by (simp add: build_file_line_def)
  then show ?thesis by (simp only: sublist_appendI)
qed

lemma name_in_sources_line: "sublist n (sources_line bid n)"
proof -
  have "sources_line bid n = (tab @ tab @ tab @ tab @ bid @ '' /* '') @ n @ '' in Sources */,''"
    by (simp add: sources_line_def)
  then show ?thesis by (simp only: sublist_appendI)
qed

lemma stage_entry_keeps_lines:
  "(l \<in> set (file_refs_section st) \<longrightarrow> l \<in> set (file_refs_section (stage_entry pe rnd T st e))) \<and>
   (l \<in> set (build_files_section st) \<longrightarrow> l \<in> set (build_files_section (stage_entry pe rnd T st e))) \<and>
   (l \<in> set (sources_build_phase st) \<longrightarrow> l \<in> set (sources_build_phase (stage_entry pe rnd T st e)))"
proof -
  obtain p g where e: "e = (p, g)" by (cases e)
  show ?thesis
  proof (cases rule: stage_entry_cases [where pe = pe and e = e and T = T])
    case missing
    then show ?thesis by (simp add: e stage_entry_missing)
  next
    case present
    then show ?thesis by (simp add: e stage_entry_present)
  next
    case new
    then show ?thesis by (simp add: e stage_entry_new)
  qed
qed

lemma stage_entry_new_lines:
  assumes "pe p" "\<not> py_in (basename p) T"
  shows "(\<exists>l\<in>set (file_refs_section (stage_entry pe rnd T st (p, g))). sublist (basename p) l) \<and>
         (\<exists>l\<in>set (build_files_section (stage_entry pe rnd T st (p, g))). sublist (basename p) l) \<and>
         (\<exists>l\<in>set (sources_build_phase (stage_entry pe rnd T st (p, g))). sublist (basename p) l)"
  using assms
  by (simp add: stage_entry_new name_in_file_ref_line name_in_build_file_line
      name_in_sources_line)

lemma staged_names_in_buffers:
  assumes "(p, g) \<in> set E" "pe p" "\<not> py_in (basename p) T"
  shows "(\<exists>l\<in>set (file_refs_section (stage_entries pe rnd T E)). sublist (basename p) l) \<and>
         (\<exists>l\<in>set (build_files_section (stage_entries pe rnd T E)). sublist (basename p) l) \<and>
         (\<exists>l\<in>set (sources_build_phase (stage_entries pe rnd T E)). sublist (basename p) l)"
  using assms(1)
proof (induction E rule: rev_induct)
  case Nil
  then show ?case by simp
next
  case (snoc e E)
  let ?st = "stage_entries pe rnd T E"
  show ?case
  proof (cases "e = (p, g)")
    case True
    then show ?thesis
      using stage_entry_new_lines [where pe = pe and p = p and T = T and g = g and rnd = rnd
          and st = ?st, OF assms(2,3)]
      by (simp only: stage_entries_snoc)
  next
    case False
    with snoc.prems have "(p, g) \<in> set E" by simp
    then obtain l1 l2 l3 where ih:
      "l1 \<in> set (file_refs_section ?st)" "sublist (basename p) l1"
      "l2 \<in> set (build_files_section ?st)" "sublist (basename p) l2"
      "l3 \<in> set (sources_build_phase ?st)" "sublist (basename p) l3"
      using snoc.IH by blast
    from ih(1) stage_entry_keeps_lines [where st = ?st and pe = pe and rnd = rnd and T = T
        and e = e and l = l1]
    have 1: "l1 \<in> set (file_refs_section (stage_entry pe rnd T ?st e))" by blast
    from ih(3) stage_entry_keeps_lines [where st = ?st and pe = pe and rnd = rnd and T = T
        and e = e and l = l2]
    have 2: "l2 \<in> set (build_files_section (stage_entry pe rnd T ?st e))" by blast
    from ih(5) stage_entry_keeps_lines [where st = ?st and pe = pe and rnd = rnd and T = T
        and e = e and l = l3]
    have 3: "l3 \<in> set (sources_build_phase (stage_entry pe rnd T ?st e))" by blast
    from 1 2 3 ih(2,4,6) show ?thesis
      unfolding stage_entries_snoc by blast
  qed
qed

lemma entry_name_source:
  assumes "e \<in> set E" "pe (fst e)"
  shows "py_in (basename (fst e)) T \<or>
         ((\<exists>l\<in>set (file_refs_section (stage_entries pe rnd T E)). sublist (basename (fst e)) l) \<and>
          (\<exists>l\<in>set (build_files_section (stage_entries pe rnd T E)). sublist (basename (fst e)) l) \<and>
          (\<exists>l\<in>set (sources_build_phase (stage_entries pe rnd T E)). sublist (basename (fst e)) l))"
proof (cases "py_in (basename (fst e)) T")
  case True
  then show ?thesis by simp
next
  case False
  have "(fst e, snd e) \<in> set E" using assms(1) by simp
  from staged_names_in_buffers [where pe = pe and rnd = rnd, OF this assms(2) False]
  show ?thesis by simp
qed

section \<open>Facts about the insertions\<close>

text \<open>
  Each insertion either leaves the text alone or splits it at a position where the
  marker searched for begins. A string that does not contain the first character of that
  marker cannot lie across the split, so it is still a substring after the insertion.
\<close>

lemma insert_before_absent_marker: "\<not> py_in m s \<Longrightarrow> insert_before_marker m sec s = s"
  by (simp add: insert_before_marker_def)

lemma insert_before_marker_cases:
  obtains (absent) "\<not> py_in m s" "\<And>sec. insert_before_marker m sec s = s"
  | (spliced) k where "k \<le> length s" "prefix m (drop k s)"
      "\<And>sec. insert_before_marker m sec s = take k s @ py_join nl sec @ nl @ drop k s"
proof (cases "py_in m s")
  case False
  then show ?thesis by (intro absent) (simp_all add: insert_before_marker_def)
next
  case True
  then have "py_find s m 0 \<noteq> - 1" by (simp add: py_in_def)
  then obtain k where k: "py_find s m 0 = int k" "k \<le> length s" "prefix m (drop k s)"
    by (rule py_find_found [rotated 2]) simp_all
  have "insert_before_marker m sec s = take k s @ py_join nl sec @ nl @ drop k s" for sec
    using True k(1,2) by (simp add: insert_before_marker_def Let_def slice_at)
  with k(2,3) show ?thesis by (rule spliced)
qed

lemma insert_sources_cases:
  assumes "\<not> end_bracket_missing s"
  obtains (absent) "\<And>sec. insert_sources sec s = s"
  | (spliced) k where "k \<le> length s" "prefix '');'' (drop k s)"
      "\<And>sec. insert_sources sec s = take k s @ py_join nl sec @ nl @ drop k s"
proof (cases "py_in sources_marker s
    \<and> py_find s ''files = ('' (py_find s sources_marker 0) \<noteq> - 1")
  case False
  then show ?thesis by (intro absent) (auto simp: insert_sources_def Let_def)
next
  case True
  then have "py_find s sources_marker 0 \<noteq> - 1" by (simp add: py_in_def)
  then obtain k0 where k0: "py_find s sources_marker 0 = int k0" "k0 \<le> length s"
    by (rule py_find_found [rotated 2]) simp_all
  from True k0 have "py_find s ''files = ('' (int k0) \<noteq> - 1" by simp
  then obtain k1 where k1: "py_find s ''files = ('' (int k0) = int k1" "k1 \<le> length s"
    by (rule py_find_found [rotated 2]) (use k0 in simp_all)
  from assms True k0 k1 have "py_find s '');'' (int k1) \<noteq> - 1"
    by (simp add: end_bracket_missing_def)
  then obtain k where k: "py_find s '');'' (int k1) = int k" "k \<le> length s"
      "prefix '');'' (drop k s)"
    by (rule py_find_found [rotated 2]) (use k1 in simp_all)
  have "insert_sources sec s = take k s @ py_join nl sec @ nl @ drop k s" for sec
    using True k0 k1 k(1,2) by (simp add: insert_sources_def Let_def slice_at)
  with k(2,3) show ?thesis by (rule spliced)
qed

lemma marker_step:
  assumes "py_in (CHR ''/'' # m) s" and "CHR ''/'' \<notin> set n"
    and "py_in n s \<or> (\<exists>l\<in>set sec. sublist n l)"
  shows "py_in n (insert_before_marker (CHR ''/'' # m) sec s)"
proof (cases rule: insert_before_marker_cases [where m = "CHR ''/'' # m" and s = s])
  case absent
  with assms(1) show ?thesis by simp
next
  case (spliced k)
  from spliced(2) assms(2,3) show ?thesis
    unfolding spliced(3) by (rule spliced_step)
qed

lemma marker_keep:
  assumes "CHR ''/'' \<notin> set n" and "py_in n s"
  shows "py_in n (insert_before_marker (CHR ''/'' # m) sec s)"
proof (cases rule: insert_before_marker_cases [where m = "CHR ''/'' # m" and s = s])
  case absent
  with assms(2) show ?thesis by simp
next
  case (spliced k)
  from assms(2) have "py_in n s \<or> (\<exists>l\<in>set sec. sublist n l)" by simp
  with spliced(2) assms(1) show ?thesis
    unfolding spliced(3) by (rule spliced_step)
qed

lemma sources_keep:
  assumes "\<not> end_bracket_missing s" and "CHR '')'' \<notin> set n" and "py_in n s"
  shows "py_in n (insert_sources sec s)"
  using assms(1)
proof (cases rule: insert_sources_cases)
  case absent
  with assms(3) show ?thesis by simp
next
  case (spliced k)
  from assms(3) have "py_in n s \<or> (\<exists>l\<in>set sec. sublist n l)" by simp
  with spliced(2) assms(2) show ?thesis
    unfolding spliced(3) by (rule spliced_step [where c = "CHR '')''" and m = "'';''", simplified])
qed

lemma patch_without_anchors:
  assumes "\<not> py_in file_ref_marker s" "\<not> py_in build_file_marker s"
    "\<And>sec. insert_sources sec s = s"
  shows "patch st s = s"
  using assms by (simp add: patch_def insert_before_absent_marker)

lemma rerun_when_all_present:
  assumes "\<forall>e\<in>set E. pe (fst e) \<longrightarrow> py_in (basename (fst e)) s"
  shows "text_after s (register_files pe rnd E s) = s"
proof -
  have "file_refs_section (stage_entries pe rnd s E) = []"
    using assms by (auto simp: nothing_staged)
  then show ?thesis by (simp add: register_files_def text_after_def Let_def)
qed

lemma rerun_without_anchors:
  assumes "\<not> py_in file_ref_marker s" "\<not> py_in build_file_marker s"
    "\<And>sec. insert_sources sec s = s"
  shows "text_after s (register_files pe rnd E s) = s"
  using patch_without_anchors [OF assms]
  by (simp add: register_files_def text_after_def Let_def)

lemma subseq_insert_before_marker: "subseq s (insert_before_marker m sec s)"
  by (simp add: insert_before_marker_def Let_def subseq_slice_insert2)

lemma subseq_insert_sources: "subseq s (insert_sources sec s)"
  by (simp add: insert_sources_def Let_def subseq_slice_insert2)

lemma subseq_patch: "subseq s (patch st s)"
proof -
  let ?a = "insert_before_marker file_ref_marker (file_refs_section st) s"
  let ?b = "insert_before_marker build_file_marker (build_files_section st) ?a"
  have "subseq s ?a" by (rule subseq_insert_before_marker)
  moreover have "subseq ?a ?b" by (rule subseq_insert_before_marker)
  moreover have "subseq ?b (insert_sources (sources_build_phase st) ?b)"
    by (rule subseq_insert_sources)
  ultimately show ?thesis
    unfolding patch_def by (rule subseq_order.trans [OF subseq_order.trans])
qed

lemma subseq_quick_insert_source: "subseq s (quick_insert_source s)"
  by (simp add: quick_insert_source_def Let_def subseq_slice_insert2)

lemma subseq_quick_patch: "subseq s (quick_patch s)"
proof -
  let ?a = "replace_str file_ref_marker
    (file_ref_line quick_file_uuid quick_name @ nl @ file_ref_marker) s"
  let ?b = "replace_str build_file_marker
    (build_file_line quick_build_uuid quick_file_uuid quick_name @ nl @ build_file_marker) ?a"
  have "subseq s ?a"
    using subseq_replace_keeping [where s = s and old = file_ref_marker
        and x = "file_ref_line quick_file_uuid quick_name @ nl"] by simp
  moreover have "subseq ?a ?b"
    using subseq_replace_keeping [where s = ?a and old = build_file_marker
        and x = "build_file_line quick_build_uuid quick_file_uuid quick_name @ nl"] by simp
  moreover have "subseq ?b (quick_insert_source ?b)"
    by (rule subseq_quick_insert_source)
  ultimately show ?thesis
    unfolding quick_patch_def by (rule subseq_order.trans [OF subseq_order.trans])
qed



section \<open>The insertions meet the specification\<close>

text \<open>
  A successful \<^verbatim>\<open>find\<close> returns the first position of the string searched for, at
  or after the start given; so each insertion of the code puts its lines where the
  relations of the specification want them.
\<close>

lemma first_from_find_first: "find_first sub s = Some k \<Longrightarrow> first_from sub s 0 k"
proof (induction s arbitrary: k)
  case Nil
  then show ?case by (simp add: first_from_def split: if_splits)
next
  case (Cons c cs)
  show ?case
  proof (cases "prefix sub (c # cs)")
    case True
    with Cons.prems show ?thesis by (simp add: first_from_def)
  next
    case False
    with Cons.prems obtain k' where k': "find_first sub cs = Some k'" "k = Suc k'"
      by auto
    from Cons.IH [OF k'(1)] have ih: "k' \<le> length cs" "prefix sub (drop k' cs)"
      "\<And>j. j < k' \<Longrightarrow> \<not> prefix sub (drop j cs)"
      by (simp_all add: first_from_def)
    have "\<not> prefix sub (drop j (c # cs))" if "j < Suc k'" for j
    proof (cases j)
      case 0
      with False show ?thesis by simp
    next
      case (Suc j')
      with that ih(3) [of j'] show ?thesis by simp
    qed
    with ih(1,2) k'(2) show ?thesis by (simp add: first_from_def)
  qed
qed

lemma first_from_shift:
  assumes "first_from sub (drop a s) 0 i" "a \<le> length s"
  shows "first_from sub s a (a + i)"
proof -
  from assms(1) have i: "i \<le> length s - a" "prefix sub (drop (a + i) s)"
    "\<And>j. j < i \<Longrightarrow> \<not> prefix sub (drop (a + j) s)"
    by (simp_all add: first_from_def add.commute)
  have "\<not> prefix sub (drop j s)" if "a \<le> j" "j < a + i" for j
    using i(3) [of "j - a"] that by simp
  with i(1,2) assms(2) show ?thesis by (simp add: first_from_def)
qed

lemma first_from_sublist:
  assumes "first_from sub s a k"
  shows "sublist sub (drop a s)"
proof -
  from assms have "a \<le> k" "prefix sub (drop k s)" by (simp_all add: first_from_def)
  then have "prefix sub (drop (k - a) (drop a s))" by simp
  then obtain r where "drop (k - a) (drop a s) = sub @ r" by (auto simp: prefix_def)
  then have "drop a s = take (k - a) (drop a s) @ sub @ r"
    by (metis append_take_drop_id)
  then show ?thesis unfolding sublist_def by blast
qed

lemma first_from_unique:
  assumes "first_from sub s a k" "first_from sub s a k'"
  shows "k = k'"
proof (rule ccontr)
  assume "k \<noteq> k'"
  then consider "k < k'" | "k' < k" by linarith
  then show False
  proof cases
    case 1
    with assms show False unfolding first_from_def by blast
  next
    case 2
    with assms show False unfolding first_from_def by blast
  qed
qed

lemma py_find_first_from:
  assumes "a \<le> length s"
  shows "(py_find s sub (int a) = - 1 \<and> (\<forall>k. \<not> first_from sub s a k)) \<or>
         (\<exists>k. py_find s sub (int a) = int k \<and> first_from sub s a k)"
proof (cases "find_first sub (drop a s)")
  case None
  then have "py_find s sub (int a) = - 1" using assms by (simp add: py_find_def)
  moreover from None have "\<not> sublist sub (drop a s)" by (simp add: find_first_None)
  then have "\<not> first_from sub s a k" for k using first_from_sublist by blast
  ultimately show ?thesis by simp
next
  case (Some i)
  then have "py_find s sub (int a) = int (a + i)" using assms by (simp add: py_find_def)
  moreover have "first_from sub s a (a + i)"
    using first_from_find_first [OF Some] assms by (rule first_from_shift)
  ultimately show ?thesis by blast
qed

lemma splice_slices: "k \<le> length s \<Longrightarrow>
    slice_to s (int k) @ py_join nl lines @ nl @ slice_from s (int k) = spliced_at k lines s"
  by (simp add: spliced_at_def slice_at)

lemma first_from_bound: "first_from sub s a k \<Longrightarrow> k \<le> length s"
  by (simp add: first_from_def)

lemma insert_before_marker_spec:
  "record_section_spliced m lines s (insert_before_marker m lines s)"
proof (cases "sublist m s")
  case False
  then show ?thesis
    by (simp add: record_section_spliced_def insert_before_marker_def py_in_sublist)
next
  case True
  then have found: "py_find s m 0 \<noteq> - 1" by (simp add: py_in_sublist [symmetric] py_in_def)
  with py_find_first_from [of 0 s m] obtain k where
    k: "py_find s m 0 = int k" "first_from m s 0 k"
    by auto
  have "insert_before_marker m lines s = spliced_at k lines s"
    using found k(1) first_from_bound [OF k(2)]
    by (simp add: insert_before_marker_def py_in_def Let_def splice_slices)
  with True k(2) show ?thesis by (auto simp: record_section_spliced_def)
qed

lemma insert_sources_spec: "build_phase_spliced lines s (insert_sources lines s)"
proof (cases "py_find s sources_marker 0 = - 1")
  case True
  with py_find_first_from [of 0 s sources_marker]
  have "\<not> first_from sources_marker s 0 k0" for k0 by auto
  then have ncond: "\<not> (\<exists>k0 k1. first_from sources_marker s 0 k0 \<and> first_from ''files = ('' s k0 k1)"
    by blast
  have "insert_sources lines s = s"
    using True by (simp add: insert_sources_def py_in_def)
  then show ?thesis by (simp only: build_phase_spliced_def if_not_P [OF ncond])
next
  case False
  with py_find_first_from [of 0 s sources_marker] obtain k0 where
    k0: "py_find s sources_marker 0 = int k0" "first_from sources_marker s 0 k0"
    by auto
  have b0: "k0 \<le> length s" using k0(2) by (rule first_from_bound)
  show ?thesis
  proof (cases "py_find s ''files = ('' (int k0) = - 1")
    case True
    with py_find_first_from [OF b0, of "''files = (''"]
    have none: "\<not> first_from ''files = ('' s k0 k1" for k1 by auto
    have ncond: "\<not> (\<exists>k0' k1. first_from sources_marker s 0 k0' \<and> first_from ''files = ('' s k0' k1)"
    proof
      assume "\<exists>k0' k1. first_from sources_marker s 0 k0' \<and> first_from ''files = ('' s k0' k1"
      then obtain k0' k1 where h: "first_from sources_marker s 0 k0'"
        "first_from ''files = ('' s k0' k1" by blast
      from h(1) k0(2) have "k0' = k0" by (rule first_from_unique)
      with h(2) none show False by simp
    qed
    have "insert_sources lines s = s"
      using False True k0(1) by (simp add: insert_sources_def py_in_def Let_def)
    then show ?thesis by (simp only: build_phase_spliced_def if_not_P [OF ncond])
  next
    case files: False
    with py_find_first_from [OF b0, of "''files = (''"] obtain k1 where
      k1: "py_find s ''files = ('' (int k0) = int k1" "first_from ''files = ('' s k0 k1"
      by auto
    have b1: "k1 \<le> length s" using k1(2) by (rule first_from_bound)
    have cond: "\<exists>k0 k1. first_from sources_marker s 0 k0 \<and> first_from ''files = ('' s k0 k1"
      using k0(2) k1(2) by blast
    have out: "insert_sources lines s
        = slice_to s (py_find s '');'' (int k1)) @ py_join nl lines @ nl
          @ slice_from s (py_find s '');'' (int k1))"
      using False files k0(1) k1(1) by (simp add: insert_sources_def py_in_def Let_def)
    from py_find_first_from [OF b1, of "'');''"]
    have "\<exists>k. k \<le> length s \<and> insert_sources lines s = spliced_at k lines s \<and>
        ((\<exists>k'. first_from '');'' s k1 k') \<longrightarrow> first_from '');'' s k1 k)"
    proof
      assume a: "py_find s '');'' (int k1) = - 1 \<and> (\<forall>k. \<not> first_from '');'' s k1 k)"
      then have "insert_sources lines s = spliced_at (length s - 1) lines s"
        by (simp add: out slice_to_def slice_from_def py_index_def spliced_at_def nat_diff_distrib')
      with a show ?thesis by (intro exI [of _ "length s - 1"]) simp
    next
      assume "\<exists>k. py_find s '');'' (int k1) = int k \<and> first_from '');'' s k1 k"
      then obtain k where k: "py_find s '');'' (int k1) = int k" "first_from '');'' s k1 k"
        by blast
      have bk: "k \<le> length s" using k(2) by (rule first_from_bound)
      then have "insert_sources lines s = spliced_at k lines s"
        by (simp add: out k(1) splice_slices)
      with bk k(2) show ?thesis by blast
    qed
    then obtain k where "k \<le> length s" "insert_sources lines s = spliced_at k lines s"
      "(\<exists>k'. first_from '');'' s k1 k') \<longrightarrow> first_from '');'' s k1 k"
      by blast
    with k0(2) k1(2) have "\<exists>k0 k1 k. first_from sources_marker s 0 k0 \<and>
        first_from ''files = ('' s k0 k1 \<and> k \<le> length s \<and>
        insert_sources lines s = spliced_at k lines s \<and>
        ((\<exists>k'. first_from '');'' s k1 k') \<longrightarrow> first_from '');'' s k1 k)"
      by blast
    then show ?thesis by (simp only: build_phase_spliced_def if_P [OF cond])
  qed
qed

lemma quick_insert_source_eq:
  "quick_insert_source s = insert_sources [sources_line quick_build_uuid quick_name] s"
  by (simp add: quick_insert_source_def insert_sources_def py_in_def Let_def)


lemma patch_spec:
  "patched_as_specified (file_refs_section st) (build_files_section st) (sources_build_phase st)
     s (patch st s)"
proof -
  let ?a = "insert_before_marker file_ref_marker (file_refs_section st) s"
  let ?b = "insert_before_marker build_file_marker (build_files_section st) ?a"
  have "record_section_spliced file_ref_marker (file_refs_section st) s ?a"
    by (rule insert_before_marker_spec)
  moreover have "record_section_spliced build_file_marker (build_files_section st) ?a ?b"
    by (rule insert_before_marker_spec)
  moreover have "build_phase_spliced (sources_build_phase st) ?b
      (insert_sources (sources_build_phase st) ?b)"
    by (rule insert_sources_spec)
  ultimately show ?thesis unfolding patched_as_specified_def patch_def by blast
qed

lemma py_join_cons_first: "py_join sep ((c # p) # ps) = c # py_join sep (p # ps)"
  by (cases ps) simp_all

lemma py_join_empty_first: "ps \<noteq> [] \<Longrightarrow> py_join sep ([] # ps) = sep @ py_join sep ps"
  by (cases ps) simp_all

lemma marker_not_in_shorter: "m \<noteq> [] \<Longrightarrow> \<not> sublist m (butlast m)"
proof
  assume "m \<noteq> []" "sublist m (butlast m)"
  then have "length m \<le> length (butlast m)" by (intro sublist_length_le)
  with \<open>m \<noteq> []\<close> show False by (cases m rule: rev_cases) simp_all
qed

lemma replace_str_spec:
  assumes "m \<noteq> []"
  shows "every_marker_spliced m line s (replace_str m (line @ nl @ m) s)"
proof (induction s rule: length_induct)
  case (1 s)
  let ?new = "line @ nl @ m"
  show ?case
  proof (cases "s = []")
    case True
    have "replace_str m ?new [] = []" using assms by (subst replace_str.simps) simp
    with True assms show ?thesis
      by (auto simp: every_marker_spliced_def intro!: exI [of _ "[[]]"])
  next
    case ne: False
    show ?thesis
    proof (cases "prefix m s")
      case True
      then obtain r where r: "s = m @ r" by (auto simp: prefix_def)
      have "length r < length s" using r assms by simp
      with 1 have "every_marker_spliced m line r (replace_str m ?new r)" by blast
      then obtain ps where ps: "ps \<noteq> []" "r = py_join m ps"
        "replace_str m ?new r = py_join ?new ps"
        "\<forall>p\<in>set (butlast ps). \<not> sublist m (p @ butlast m)" "\<not> sublist m (last ps)"
        unfolding every_marker_spliced_def by blast
      have out: "replace_str m ?new s = ?new @ replace_str m ?new r"
        using assms ne True r by (subst replace_str.simps) simp
      have "[] # ps \<noteq> []" by simp
      moreover have "s = py_join m ([] # ps)"
        using r ps(1,2) by (simp add: py_join_empty_first)
      moreover have "replace_str m ?new s = py_join ?new ([] # ps)"
        using out ps(1,3) by (simp add: py_join_empty_first)
      moreover have "\<forall>p\<in>set (butlast ([] # ps)). \<not> sublist m (p @ butlast m)"
        using ps(1,4) marker_not_in_shorter [OF assms] by simp
      moreover have "\<not> sublist m (last ([] # ps))" using ps(1,5) by simp
      ultimately show ?thesis unfolding every_marker_spliced_def by blast
    next
      case np: False
      obtain c cs where cs: "s = c # cs" using ne by (cases s) auto
      have "length cs < length s" using cs by simp
      with 1 have "every_marker_spliced m line cs (replace_str m ?new cs)" by blast
      then obtain ps where ps: "ps \<noteq> []" "cs = py_join m ps"
        "replace_str m ?new cs = py_join ?new ps"
        "\<forall>p\<in>set (butlast ps). \<not> sublist m (p @ butlast m)" "\<not> sublist m (last ps)"
        unfolding every_marker_spliced_def by blast
      from ps(1) obtain p0 ps' where p0: "ps = p0 # ps'" by (cases ps) auto
      have out: "replace_str m ?new s = c # replace_str m ?new cs"
        using assms ne np cs by (subst replace_str.simps) simp
      have a: "s = py_join m ((c # p0) # ps')"
        using cs ps(2) p0 by (simp add: py_join_cons_first)
      have b: "replace_str m ?new s = py_join ?new ((c # p0) # ps')"
        using out ps(3) p0 by (simp add: py_join_cons_first)
      have c: "\<forall>p\<in>set (butlast ((c # p0) # ps')). \<not> sublist m (p @ butlast m)"
      proof (cases "ps' = []")
        case True
        then show ?thesis by simp
      next
        case False
        have "\<not> sublist m ((c # p0) @ butlast m)"
        proof
          assume "sublist m ((c # p0) @ butlast m)"
          then have "prefix m (c # p0 @ butlast m) \<or> sublist m (p0 @ butlast m)"
            by (simp add: sublist_Cons_right)
          moreover have "\<not> sublist m (p0 @ butlast m)"
            using ps(4) p0 False by simp
          moreover have "\<not> prefix m (c # p0 @ butlast m)"
          proof
            assume pm: "prefix m (c # p0 @ butlast m)"
            obtain y ys where ys: "ps' = y # ys" using False by (cases ps') auto
            have "cs = p0 @ m @ py_join m ps'" using ps(2) p0 ys by simp
            then have "s = (c # p0 @ butlast m) @ [last m] @ py_join m ps'"
              using cs assms by simp
            then have "prefix (c # p0 @ butlast m) s" by (metis prefixI)
            with pm have "prefix m s" by (rule prefix_order.trans)
            with np show False by simp
          qed
          ultimately show False by simp
        qed
        with ps(4) p0 False show ?thesis by simp
      qed
      have d: "\<not> sublist m (last ((c # p0) # ps'))"
      proof (cases "ps' = []")
        case True
        then have "p0 = cs" using ps(2) p0 by simp
        moreover have "\<not> sublist m p0" using ps(5) p0 True by simp
        ultimately have "\<not> sublist m (c # p0)"
          using np cs by (simp add: sublist_Cons_right)
        with True show ?thesis by simp
      next
        case False
        with ps(5) p0 show ?thesis by simp
      qed
      from a b c d show ?thesis unfolding every_marker_spliced_def by blast
    qed
  qed
qed

lemma file_ref_marker_ne: "file_ref_marker \<noteq> []"
  by (simp add: file_ref_marker_def)

lemma build_file_marker_ne: "build_file_marker \<noteq> []"
  by (simp add: build_file_marker_def)

lemma quick_patch_spec: "quick_patched_as_specified s (quick_patch s)"
proof -
  let ?a = "replace_str file_ref_marker
    (file_ref_line quick_file_uuid quick_name @ nl @ file_ref_marker) s"
  let ?b = "replace_str build_file_marker
    (build_file_line quick_build_uuid quick_file_uuid quick_name @ nl @ build_file_marker) ?a"
  have "every_marker_spliced file_ref_marker (file_ref_line quick_file_uuid quick_name) s ?a"
    using file_ref_marker_ne by (rule replace_str_spec)
  moreover have "every_marker_spliced build_file_marker
      (build_file_line quick_build_uuid quick_file_uuid quick_name) ?a ?b"
    using build_file_marker_ne by (rule replace_str_spec)
  moreover have "build_phase_spliced [sources_line quick_build_uuid quick_name] ?b
      (insert_sources [sources_line quick_build_uuid quick_name] ?b)"
    by (rule insert_sources_spec)
  ultimately show ?thesis
    unfolding quick_patched_as_specified_def quick_patch_def quick_insert_source_eq by blast
qed

lemma staged_names_snoc:
  "staged_names pe T (E @ [e]) = staged_names pe T E @
     (if pe (fst e) \<and> \<not> py_in (basename (fst e)) T
      then [(length (filter (\<lambda>e. pe (fst e)) E), basename (fst e))] else [])"
  by (simp add: staged_names_def enumerate_append_eq py_in_sublist)

lemma staged_buffers:
  "file_refs_section (stage_entries pe rnd T E)
     = map (\<lambda>(i, n). file_ref_line (generate_xcode_uuid (rnd (2 * i))) n) (staged_names pe T E) \<and>
   build_files_section (stage_entries pe rnd T E)
     = map (\<lambda>(i, n). build_file_line (generate_xcode_uuid (rnd (2 * i + 1)))
                        (generate_xcode_uuid (rnd (2 * i))) n) (staged_names pe T E) \<and>
   sources_build_phase (stage_entries pe rnd T E)
     = map (\<lambda>(i, n). sources_line (generate_xcode_uuid (rnd (2 * i + 1))) n) (staged_names pe T E)"
proof (induction E rule: rev_induct)
  case Nil
  show ?case by (simp add: stage_entries_def no_staged_def staged_names_def)
next
  case (snoc e E)
  obtain p g where e: "e = (p, g)" by (cases e)
  have len: "length (minted (stage_entries pe rnd T E)) = 2 * length (filter (\<lambda>e. pe (fst e)) E)"
    by (simp add: minted_stage_entries)
  show ?case
  proof (cases rule: stage_entry_cases [where pe = pe and e = e and T = T])
    case missing
    then show ?thesis using snoc
      by (simp add: e stage_entries_snoc stage_entry_missing staged_names_snoc)
  next
    case present
    then show ?thesis using snoc
      by (simp add: e stage_entries_snoc stage_entry_present staged_names_snoc)
  next
    case new
    then show ?thesis using snoc len
      by (simp add: e stage_entries_snoc stage_entry_new staged_names_snoc)
  qed
qed

lemma staged_names_empty:
  "staged_names pe T E = [] \<longleftrightarrow> file_refs_section (stage_entries pe rnd T E) = []"
  using staged_buffers [of pe rnd T E] by simp







section \<open>Sample inputs\<close>

lemmas eval_defs = register_files_def stage_entries_def stage_entry_def patch_def
  insert_before_marker_def insert_sources_def py_in_def py_find_def Let_def no_staged_def
  basename_def slice_to_def slice_from_def py_index_def file_ref_marker_def
  build_file_marker_def sources_marker_def file_ref_line_def build_file_line_def
  sources_line_def group_child_line_def tab_def nl_def gen_zero

lemma py_in_X: "py_in (basename ''Features/X.swift'') ''/* X.swift */''"
  by (simp add: py_in_def py_find_def basename_def)




lemma sample_names_ok:
  "\<forall>e\<in>set [(''a/X.swift'', ''G'')]. (\<lambda>p. True) (fst e) \<longrightarrow> CHR '')'' \<notin> set (basename (fst e))"
  by (simp add: basename_def)

lemma sample_closing:
  "\<not> end_bracket_missing (with_records
      (stage_entries (\<lambda>p. True) (\<lambda>i. 0)
         (build_file_marker @ nl @ file_ref_marker @ nl @ sources_marker @ '' files = ('' @ nl @ '');'')
         [(''a/X.swift'', ''G'')])
      (build_file_marker @ nl @ file_ref_marker @ nl @ sources_marker @ '' files = ('' @ nl @ '');''))"
  by (simp add: end_bracket_missing_def with_records_def eval_defs)








lemma sample_quick_absent:
  "\<not> sublist quick_name (universal_newlines (''x'' @ [CHR 0x0D, CHR 0x0A] @ file_ref_marker))"
  unfolding py_in_sublist [symmetric]
  by (simp add: py_in_def py_find_def quick_name_def file_ref_marker_def)

section \<open>The claims of the specification, checked on the code\<close>










text \<open>
  C4, as amended. An entry whose path exists and whose display name already occurs in
  the manifest text is skipped with no fragment staged in any of the four buffers, but
  the identity generator has been called twice for it before the test: two identities
  are minted and dropped. The claim as stated (the generator is not invoked) fails, as
  the call below mints two identities for its only entry, which is skipped.
\<close>

theorem present_entry_mints_and_skips:
  assumes "path_exists p" and "py_in (basename p) T"
  shows "file_refs_section (stage_entry path_exists rnd T st (p, g)) = file_refs_section st \<and>
         build_files_section (stage_entry path_exists rnd T st (p, g)) = build_files_section st \<and>
         group_children (stage_entry path_exists rnd T st (p, g)) = group_children st \<and>
         sources_build_phase (stage_entry path_exists rnd T st (p, g)) = sources_build_phase st \<and>
         minted (stage_entry path_exists rnd T st (p, g))
           = minted st @ [generate_xcode_uuid (rnd (length (minted st))),
                          generate_xcode_uuid (rnd (length (minted st) + 1))] \<and>
         printed (stage_entry path_exists rnd T st (p, g))
           = printed st @ [''Skipping '' @ basename p @ '' - already in project'']"
  using assms by (simp add: stage_entry_present)

theorem present_entry_mints_and_skips_witness:
  "file_refs_section (stage_entry (\<lambda>p. True) (\<lambda>i. 0) ''/* X.swift */'' no_staged (''Features/X.swift'', ''G'')) = [] \<and>
   sources_build_phase (stage_entry (\<lambda>p. True) (\<lambda>i. 0) ''/* X.swift */'' no_staged (''Features/X.swift'', ''G'')) = [] \<and>
   minted (stage_entry (\<lambda>p. True) (\<lambda>i. 0) ''/* X.swift */'' no_staged (''Features/X.swift'', ''G''))
     = [''000000000000400080000000'', ''000000000000400080000000'']"
  using present_entry_mints_and_skips [where path_exists = "\<lambda>p. True" and p = "''Features/X.swift''"
      and T = "''/* X.swift */''" and st = no_staged and rnd = "\<lambda>i. 0" and g = "''G''", OF TrueI py_in_X]
  by (simp add: no_staged_def gen_zero)

theorem skipped_entry_mints_counterexample:
  "py_in (basename ''Features/X.swift'') ''/* X.swift */'' \<and>
   minted_ids (register_files (\<lambda>p. True) (\<lambda>i. 0) [(''Features/X.swift'', ''G'')] ''/* X.swift */'')
     = [''000000000000400080000000'', ''000000000000400080000000'']"
  by (simp add: py_in_X register_files_def stage_entries_def stage_entry_def Let_def
      no_staged_def gen_zero)

text \<open>
  C5, as amended. Running the call again on its own output, with the same entries and
  whatever identities the second run draws, returns that output unchanged, provided
  that no entry whose path exists has a closing parenthesis in its display name and
  that the build-phase splice of the first run, if it is made, finds its closing
  \<^verbatim>\<open>);\<close>. Then every display name that the first run found in the text or staged
  is still in its output, and the second run stages nothing.

  The claim as stated, for every text and every entry sequence, fails: a display name
  that occurs in the manifest only across the point where the build-phase list is
  spliced is cut in two by the insertion. Below, \<^verbatim>\<open>Notes (old)\<close> is skipped by the
  first run, which registers \<^verbatim>\<open>Y.swift\<close>, and registered by the second.
\<close>

theorem rerun_leaves_text:
  assumes names: "\<forall>e\<in>set E. path_exists (fst e) \<longrightarrow> CHR '')'' \<notin> set (basename (fst e))"
    and closing: "\<not> end_bracket_missing (with_records (stage_entries path_exists rnd T E) T)"
  shows "text_after (text_after T (register_files path_exists rnd E T))
           (register_files path_exists rnd' E (text_after T (register_files path_exists rnd E T)))
         = text_after T (register_files path_exists rnd E T)"
proof (cases "file_refs_section (stage_entries path_exists rnd T E) = []")
  case True
  then have first: "text_after T (register_files path_exists rnd E T) = T"
    by (simp add: register_files_def text_after_def Let_def)
  from True have "file_refs_section (stage_entries path_exists rnd' T E) = []"
    by (simp only: nothing_staged)
  then have "text_after T (register_files path_exists rnd' E T) = T"
    by (simp add: register_files_def text_after_def Let_def)
  with first show ?thesis by simp
next
  case False
  let ?st = "stage_entries path_exists rnd T E"
  let ?Ta = "insert_before_marker file_ref_marker (file_refs_section ?st) T"
  let ?Tb = "insert_before_marker build_file_marker (build_files_section ?st) ?Ta"
  let ?T1 = "insert_sources (sources_build_phase ?st) ?Tb"
  have first: "text_after T (register_files path_exists rnd E T) = ?T1"
    using False by (simp add: register_files_def text_after_def Let_def patch_def)
  have closing': "\<not> end_bracket_missing ?Tb"
    using closing unfolding with_records_def .
  have frm: "file_ref_marker = CHR ''/'' # ''* End PBXFileReference section */''"
    by (simp add: file_ref_marker_def)
  have bfm: "build_file_marker = CHR ''/'' # ''* End PBXBuildFile section */''"
    by (simp add: build_file_marker_def)
  consider (none) "\<not> py_in file_ref_marker T" "\<not> py_in build_file_marker T"
      "\<And>sec. insert_sources sec T = T"
    | (some) "\<forall>e\<in>set E. path_exists (fst e) \<longrightarrow> py_in (basename (fst e)) ?T1"
  proof (cases "py_in file_ref_marker T")
    case refs: True
    have "py_in (basename (fst e)) ?T1" if e: "e \<in> set E" "path_exists (fst e)" for e
    proof -
      let ?n = "basename (fst e)"
      have slash: "CHR ''/'' \<notin> set ?n" by (rule basename_no_slash)
      have paren: "CHR '')'' \<notin> set ?n" using names e by blast
      from entry_name_source [where pe = path_exists and e = e and E = E and T = T
            and rnd = rnd, OF e]
      have "py_in ?n T \<or> (\<exists>l\<in>set (file_refs_section ?st). sublist ?n l)" by blast
      with refs slash have "py_in ?n ?Ta"
        unfolding frm by (intro marker_step)
      with slash have "py_in ?n ?Tb"
        unfolding bfm by (intro marker_keep)
      with closing' paren show ?thesis by (intro sources_keep)
    qed
    then show ?thesis by (intro some) blast
  next
    case no_refs: False
    then have Ta: "?Ta = T" by (simp add: insert_before_absent_marker)
    show ?thesis
    proof (cases "py_in build_file_marker T")
      case builds: True
      have "py_in (basename (fst e)) ?T1" if e: "e \<in> set E" "path_exists (fst e)" for e
      proof -
        let ?n = "basename (fst e)"
        have slash: "CHR ''/'' \<notin> set ?n" by (rule basename_no_slash)
        have paren: "CHR '')'' \<notin> set ?n" using names e by blast
        from entry_name_source [where pe = path_exists and e = e and E = E and T = T
            and rnd = rnd, OF e]
        have "py_in ?n T \<or> (\<exists>l\<in>set (build_files_section ?st). sublist ?n l)" by blast
        with builds slash have "py_in ?n ?Tb"
          unfolding bfm Ta by (intro marker_step)
        with closing' paren show ?thesis by (intro sources_keep)
      qed
      then show ?thesis by (intro some) blast
    next
      case no_builds: False
      then have Tb: "?Tb = T" by (simp add: Ta insert_before_absent_marker)
      from closing' have cl: "\<not> end_bracket_missing T" unfolding Tb .
      from cl show ?thesis
      proof (cases rule: insert_sources_cases)
        case absent
        with no_refs no_builds show ?thesis by (intro none)
      next
        case (spliced k)
        have "py_in (basename (fst e)) ?T1" if e: "e \<in> set E" "path_exists (fst e)" for e
        proof -
          let ?n = "basename (fst e)"
          have paren: "CHR '')'' \<notin> set ?n" using names e by blast
          from entry_name_source [where pe = path_exists and e = e and E = E and T = T
            and rnd = rnd, OF e]
          have "py_in ?n T \<or> (\<exists>l\<in>set (sources_build_phase ?st). sublist ?n l)" by blast
          with spliced(2) paren
          have "py_in ?n (take k T @ py_join nl (sources_build_phase ?st) @ nl @ drop k T)"
            by (intro spliced_step [where c = "CHR '')''" and m = "'';''"]) simp_all
          then show ?thesis by (simp only: Tb spliced(3))
        qed
        then show ?thesis by (intro some) blast
      qed
    qed
  qed
  then show ?thesis
  proof cases
    case none
    from patch_without_anchors [OF none] have "?T1 = T" by (simp add: patch_def)
    with first rerun_without_anchors [OF none, of path_exists rnd' E] show ?thesis by simp
  next
    case some
    then have "text_after ?T1 (register_files path_exists rnd' E ?T1) = ?T1"
      by (rule rerun_when_all_present)
    with first show ?thesis by simp
  qed
qed

theorem rerun_leaves_text_witness:
  "text_after
     (text_after
        (build_file_marker @ nl @ file_ref_marker @ nl @ sources_marker @ '' files = ('' @ nl @ '');'')
        (register_files (\<lambda>p. True) (\<lambda>i. 0) [(''a/X.swift'', ''G'')]
           (build_file_marker @ nl @ file_ref_marker @ nl @ sources_marker @ '' files = ('' @ nl @ '');'')))
     (register_files (\<lambda>p. True) (\<lambda>i. 1) [(''a/X.swift'', ''G'')]
        (text_after
           (build_file_marker @ nl @ file_ref_marker @ nl @ sources_marker @ '' files = ('' @ nl @ '');'')
           (register_files (\<lambda>p. True) (\<lambda>i. 0) [(''a/X.swift'', ''G'')]
              (build_file_marker @ nl @ file_ref_marker @ nl @ sources_marker @ '' files = ('' @ nl @ '');''))))
   = text_after
       (build_file_marker @ nl @ file_ref_marker @ nl @ sources_marker @ '' files = ('' @ nl @ '');'')
       (register_files (\<lambda>p. True) (\<lambda>i. 0) [(''a/X.swift'', ''G'')]
          (build_file_marker @ nl @ file_ref_marker @ nl @ sources_marker @ '' files = ('' @ nl @ '');''))"
  using sample_names_ok sample_closing by (rule rerun_leaves_text)

theorem rerun_changes_text_counterexample:
  "py_in (basename ''Notes (old)'') (sources_marker @ ''files = (Notes (old);'') \<and>
   text_after (sources_marker @ ''files = (Notes (old);'')
     (register_files (\<lambda>p. True) (\<lambda>i. 0) [(''Notes (old)'', ''G''), (''Y.swift'', ''G'')]
        (sources_marker @ ''files = (Notes (old);''))
     = sources_marker @ ''files = (Notes (old''
         @ sources_line ''000000000000400080000000'' ''Y.swift'' @ nl @ '');'' \<and>
   text_after
     (sources_marker @ ''files = (Notes (old''
         @ sources_line ''000000000000400080000000'' ''Y.swift'' @ nl @ '');'')
     (register_files (\<lambda>p. True) (\<lambda>i. 0) [(''Notes (old)'', ''G''), (''Y.swift'', ''G'')]
        (sources_marker @ ''files = (Notes (old''
           @ sources_line ''000000000000400080000000'' ''Y.swift'' @ nl @ '');''))
     = sources_marker @ ''files = (Notes (old''
         @ sources_line ''000000000000400080000000'' ''Y.swift'' @ nl
         @ sources_line ''000000000000400080000000'' ''Notes (old)'' @ nl @ '');'' \<and>
   sources_marker @ ''files = (Notes (old''
       @ sources_line ''000000000000400080000000'' ''Y.swift'' @ nl
       @ sources_line ''000000000000400080000000'' ''Notes (old)'' @ nl @ '');''
     \<noteq> sources_marker @ ''files = (Notes (old''
         @ sources_line ''000000000000400080000000'' ''Y.swift'' @ nl @ '');''"
  by (simp add: text_after_def eval_defs)

text \<open>
  C6. No-op on full overlap: when the display name of every entry already occurs in the
  manifest text, the call returns before the file is opened for writing, so the text on
  disk after the call is the text that was read.
\<close>

theorem no_op_on_full_overlap:
  assumes "\<forall>e\<in>set E. py_in (basename (fst e)) T"
  shows "written (register_files pe rnd E T) = None \<and>
         text_after T (register_files pe rnd E T) = T"
proof -
  have "file_refs_section (stage_entries pe rnd T E) = []"
    using assms by (simp add: nothing_staged)
  then show ?thesis by (simp add: register_files_def text_after_def Let_def)
qed

theorem no_op_on_full_overlap_witness:
  "written (register_files (\<lambda>p. True) (\<lambda>i. 0) [(''Features/X.swift'', ''G'')] ''/* X.swift */'') = None \<and>
   text_after ''/* X.swift */''
     (register_files (\<lambda>p. True) (\<lambda>i. 0) [(''Features/X.swift'', ''G'')] ''/* X.swift */'')
     = ''/* X.swift */''"
proof -
  have "\<forall>e\<in>set [(''Features/X.swift'', ''G'')]. py_in (basename (fst e)) ''/* X.swift */''"
    by (simp add: py_in_def py_find_def basename_def)
  then show ?thesis by (rule no_op_on_full_overlap)
qed

text \<open>
  C7, as amended. The text that is patched is the text as read: the characters of the
  file with every line ending, CR LF or CR alone, translated to LF. The text after a
  call differs from the text read only by insertions. The text read is a subsequence of
  it; and if anything is staged it is the text read with the joined lines of each record
  section spliced in immediately before the first occurrence of the end marker of that
  section, and the build-phase lines spliced in before the first \<^verbatim>\<open>);\<close> that
  follows the first \<^verbatim>\<open>files = (\<close> after the first \<^verbatim>\<open>/* Sources */,\<close>, when that
  \<^verbatim>\<open>);\<close> is found. \<^verbatim>\<open>add_quick_components.py\<close> does the same, with its record
  lines before every occurrence of the marker. The claim as stated, for every byte of
  the input, fails on a manifest with a carriage return: the file written below has
  lost it.
\<close>

theorem only_insertions:
  "subseq T (text_after T (register_files path_exists rnd E T)) \<and>
   ((staged_names path_exists T E = [] \<and> written (register_files path_exists rnd E T) = None) \<or>
    (\<exists>T1. written (register_files path_exists rnd E T) = Some T1 \<and>
       patched_as_specified (file_refs_section (stage_entries path_exists rnd T E))
         (build_files_section (stage_entries path_exists rnd T E))
         (sources_build_phase (stage_entries path_exists rnd T E)) T T1)) \<and>
   subseq T (quick_patch T) \<and>
   quick_patched_as_specified T (quick_patch T) \<and>
   (disk project_file = Some (Text raw) \<longrightarrow>
      add_files_to_xcode_project path_exists rnd disk
        = Inr (case written (register_files path_exists rnd files_to_add (universal_newlines raw)) of
                 None \<Rightarrow> disk
               | Some c \<Rightarrow> disk(project_file \<mapsto> Text c),
               console (register_files path_exists rnd files_to_add (universal_newlines raw)))) \<and>
   (disk project_file = Some (Text raw) \<and> \<not> sublist quick_name (universal_newlines raw) \<longrightarrow>
      add_quick_components disk
        = Inr (disk(project_file \<mapsto> Text (quick_patch (universal_newlines raw))),
               [''Added QuickComponents.swift to project'']))"
proof -
  let ?st = "stage_entries path_exists rnd T E"
  have a: "subseq T (text_after T (register_files path_exists rnd E T))"
    by (simp add: text_after_def register_files_def Let_def subseq_patch)
  have b: "(staged_names path_exists T E = [] \<and> written (register_files path_exists rnd E T) = None) \<or>
    (\<exists>T1. written (register_files path_exists rnd E T) = Some T1 \<and>
       patched_as_specified (file_refs_section ?st) (build_files_section ?st)
         (sources_build_phase ?st) T T1)"
  proof (cases "file_refs_section ?st = []")
    case True
    then have "written (register_files path_exists rnd E T) = None"
      by (simp add: register_files_def Let_def)
    moreover from True have "staged_names path_exists T E = []"
      by (simp add: staged_names_empty [of path_exists T E rnd])
    ultimately show ?thesis by simp
  next
    case False
    then have "written (register_files path_exists rnd E T) = Some (patch ?st T)"
      by (simp add: register_files_def Let_def)
    with patch_spec [of ?st T] show ?thesis by blast
  qed
  have c: "subseq T (quick_patch T)" by (rule subseq_quick_patch)
  have d: "quick_patched_as_specified T (quick_patch T)" by (rule quick_patch_spec)
  have e: "add_files_to_xcode_project path_exists rnd disk
        = Inr (case written (register_files path_exists rnd files_to_add (universal_newlines raw)) of
                 None \<Rightarrow> disk
               | Some c \<Rightarrow> disk(project_file \<mapsto> Text c),
               console (register_files path_exists rnd files_to_add (universal_newlines raw)))"
    if "disk project_file = Some (Text raw)"
    using that
    by (simp add: add_files_to_xcode_project_def read_text_def write_text_def Let_def
        split: option.splits)
  have f: "add_quick_components disk
        = Inr (disk(project_file \<mapsto> Text (quick_patch (universal_newlines raw))),
               [''Added QuickComponents.swift to project''])"
    if "disk project_file = Some (Text raw) \<and> \<not> sublist quick_name (universal_newlines raw)"
    using that
    by (simp add: add_quick_components_def read_text_def write_text_def py_in_sublist)
  from a b c d e f show ?thesis by (intro conjI impI)
qed

theorem only_insertions_witness:
  "add_files_to_xcode_project (\<lambda>p. False) (\<lambda>i. 0)
       [project_file \<mapsto> Text (''x'' @ [CHR 0x0D, CHR 0x0A] @ file_ref_marker)]
     = Inr (case written (register_files (\<lambda>p. False) (\<lambda>i. 0) files_to_add
                (universal_newlines (''x'' @ [CHR 0x0D, CHR 0x0A] @ file_ref_marker))) of
              None \<Rightarrow> [project_file \<mapsto> Text (''x'' @ [CHR 0x0D, CHR 0x0A] @ file_ref_marker)]
            | Some c \<Rightarrow>
                [project_file \<mapsto> Text (''x'' @ [CHR 0x0D, CHR 0x0A] @ file_ref_marker)]
                  (project_file \<mapsto> Text c),
            console (register_files (\<lambda>p. False) (\<lambda>i. 0) files_to_add
                (universal_newlines (''x'' @ [CHR 0x0D, CHR 0x0A] @ file_ref_marker)))) \<and>
   add_quick_components [project_file \<mapsto> Text (''x'' @ [CHR 0x0D, CHR 0x0A] @ file_ref_marker)]
     = Inr ([project_file \<mapsto> Text (''x'' @ [CHR 0x0D, CHR 0x0A] @ file_ref_marker)]
              (project_file \<mapsto> Text (quick_patch
                 (universal_newlines (''x'' @ [CHR 0x0D, CHR 0x0A] @ file_ref_marker)))),
            [''Added QuickComponents.swift to project''])"
proof -
  let ?raw = "''x'' @ [CHR 0x0D, CHR 0x0A] @ file_ref_marker"
  have d: "[project_file \<mapsto> Text ?raw] project_file = Some (Text ?raw)" by simp
  note t = only_insertions [where disk = "[project_file \<mapsto> Text ?raw]" and raw = ?raw
      and path_exists = "\<lambda>p. False" and rnd = "\<lambda>i. 0"]
  note t5 = t [THEN conjunct2, THEN conjunct2, THEN conjunct2, THEN conjunct2, THEN conjunct1]
  note t6 = t [THEN conjunct2, THEN conjunct2, THEN conjunct2, THEN conjunct2, THEN conjunct2]
  from t5 d have "add_files_to_xcode_project (\<lambda>p. False) (\<lambda>i. 0) [project_file \<mapsto> Text ?raw]
     = Inr (case written (register_files (\<lambda>p. False) (\<lambda>i. 0) files_to_add (universal_newlines ?raw)) of
              None \<Rightarrow> [project_file \<mapsto> Text ?raw]
            | Some c \<Rightarrow> [project_file \<mapsto> Text ?raw](project_file \<mapsto> Text c),
            console (register_files (\<lambda>p. False) (\<lambda>i. 0) files_to_add (universal_newlines ?raw)))"
    by (rule mp)
  moreover from t6 d sample_quick_absent
  have "add_quick_components [project_file \<mapsto> Text ?raw]
     = Inr ([project_file \<mapsto> Text ?raw]
              (project_file \<mapsto> Text (quick_patch (universal_newlines ?raw))),
            [''Added QuickComponents.swift to project''])"
    by blast
  ultimately show ?thesis by (rule conjI)
qed

theorem carriage_return_lost_counterexample:
  "(case add_files_to_xcode_project (\<lambda>p. p = ''Features/Dashboard/DashboardModels.swift'') (\<lambda>i. 0)
          [project_file \<mapsto> Text (''x'' @ [CHR 0x0D, CHR 0x0A] @ file_ref_marker)] of
      Inl e \<Rightarrow> None
    | Inr (d, c) \<Rightarrow> d project_file)
     = Some (Text (''x'' @ nl
         @ file_ref_line ''000000000000400080000000'' ''DashboardModels.swift'' @ nl
         @ file_ref_marker)) \<and>
   CHR 0x0D \<in> set (''x'' @ [CHR 0x0D, CHR 0x0A] @ file_ref_marker) \<and>
   CHR 0x0D \<notin> set (''x'' @ nl
         @ file_ref_line ''000000000000400080000000'' ''DashboardModels.swift'' @ nl
         @ file_ref_marker)"
  by (simp add: add_files_to_xcode_project_def read_text_def write_text_def files_to_add_def
      project_file_def eval_defs)

text \<open>
  C8. Whatever the 16 random bytes are, the identity \<^verbatim>\<open>generate_xcode_uuid\<close> returns
  (the same function text in \<^verbatim>\<open>add_new_components_to_xcode.py\<close> and in
  \<^verbatim>\<open>add_files_to_xcode.py\<close>) has exactly 24 characters, each one of the upper-case
  hexadecimal digits 0-9, A-F; no dash is left in it.
\<close>

theorem generate_xcode_uuid_format:
  "length (generate_xcode_uuid r) = 24 \<and>
   set (generate_xcode_uuid r) \<subseteq> set ''0123456789ABCDEF''"
proof
  show "length (generate_xcode_uuid r) = 24"
    by (simp add: generate_xcode_uuid_eq hex_digits_length)
  have "set (generate_xcode_uuid r) \<subseteq> set (map upper_char (hex_digits 32 (uuid4_int r)))"
    unfolding generate_xcode_uuid_eq by (rule set_take_subset)
  also have "\<dots> \<subseteq> set ''0123456789ABCDEF''"
    by (rule upper_hex_digits)
  finally show "set (generate_xcode_uuid r) \<subseteq> set ''0123456789ABCDEF''" .
qed

text \<open>
  C9, as amended. In one call the identity generator is called twice for every entry
  whose path exists, on successive random draws, and nothing compares the identities
  it returns. The identities minted are pairwise distinct exactly when the UUIDs drawn
  are pairwise distinct in their leading 96 bits, the 24 hexadecimal digits that are
  kept. The claim as stated fails: the two different draws 0 and 1 give the same
  identity, since they differ in the 32 bits that are cut off.
\<close>

theorem minted_distinct_iff:
  "minted_ids (register_files path_exists rnd E T)
     = map (\<lambda>i. generate_xcode_uuid (rnd i))
         [0..<2 * length (filter (\<lambda>e. path_exists (fst e)) E)] \<and>
   (distinct (minted_ids (register_files path_exists rnd E T))
     \<longleftrightarrow> inj_on (\<lambda>i. uuid4_int (rnd i) div 2 ^ 32)
           {..<2 * length (filter (\<lambda>e. path_exists (fst e)) E)})"
proof -
  let ?n = "2 * length (filter (\<lambda>e. path_exists (fst e)) E)"
  have m: "minted_ids (register_files path_exists rnd E T)
      = map (\<lambda>i. generate_xcode_uuid (rnd i)) [0..<?n]"
    by (simp add: register_files_def Let_def minted_stage_entries)
  have "inj_on (\<lambda>i. generate_xcode_uuid (rnd i)) {..<?n}
      \<longleftrightarrow> inj_on (\<lambda>i. uuid4_int (rnd i) div 2 ^ 32) {..<?n}"
    by (simp only: inj_on_def generate_xcode_uuid_eq_iff)
  then have "distinct (map (\<lambda>i. generate_xcode_uuid (rnd i)) [0..<?n])
      \<longleftrightarrow> inj_on (\<lambda>i. uuid4_int (rnd i) div 2 ^ 32) {..<?n}"
    by (simp add: distinct_map lessThan_atLeast0)
  with m show ?thesis by simp
qed

theorem colliding_draws_counterexample:
  "(0 :: 128 word) \<noteq> 1 \<and>
   minted_ids (register_files (\<lambda>p. True) (\<lambda>i. of_nat i) [(''a/X.swift'', ''G'')] file_ref_marker)
     = [''000000000000400080000000'', ''000000000000400080000000'']"
proof -
  have "minted_ids (register_files (\<lambda>p. True) (\<lambda>i. of_nat i) [(''a/X.swift'', ''G'')] file_ref_marker)
      = map (\<lambda>i. generate_xcode_uuid (of_nat i)) [0..<2]"
    by (simp add: register_files_def Let_def minted_stage_entries)
  also have "[0..<2] = [0, Suc 0]" by (simp add: upt_rec)
  finally show ?thesis by (simp add: gen_zero gen_one)
qed

text \<open>
  C10. An entry whose path does not exist is dropped by the first test of the loop body,
  before the test for its display name in the manifest and whether or not that name
  occurs there: the loop only prints the warning, no buffer changes and no identity is
  minted, and the text written and the identities minted by a whole call are the same as
  without the entry.
\<close>

theorem missing_path_is_dropped:
  assumes "\<not> path_exists p"
  shows "stage_entry path_exists rnd T st (p, g)
           = st\<lparr>printed := printed st @ [''Warning: '' @ p @ '' does not exist'']\<rparr> \<and>
         written (register_files path_exists rnd (E1 @ (p, g) # E2) T)
           = written (register_files path_exists rnd (E1 @ E2) T) \<and>
         minted_ids (register_files path_exists rnd (E1 @ (p, g) # E2) T)
           = minted_ids (register_files path_exists rnd (E1 @ E2) T)"
proof -
  let ?f = "stage_entry path_exists rnd T"
  have step: "?f st (p, g) = st\<lparr>printed := printed st @ [''Warning: '' @ p @ '' does not exist'']\<rparr>"
    for st using assms by (rule stage_entry_missing)
  have "same_buffers (?f (foldl ?f no_staged E1) (p, g)) (foldl ?f no_staged E1)"
    by (simp only: step same_buffers_printed)
  then have "same_buffers (foldl ?f (?f (foldl ?f no_staged E1) (p, g)) E2)
      (foldl ?f (foldl ?f no_staged E1) E2)"
    by (rule foldl_same_buffers_id)
  then have "same_buffers (stage_entries path_exists rnd T (E1 @ (p, g) # E2))
      (stage_entries path_exists rnd T (E1 @ E2))"
    by (simp add: stage_entries_def)
  from same_buffers_outcome [OF this] step show ?thesis by simp
qed

theorem missing_path_is_dropped_witness:
  "\<not> (''a/X.swift'' = ''b/Y.swift'') \<and>
   stage_entry (\<lambda>p. p = ''b/Y.swift'') (\<lambda>i. 0) file_ref_marker no_staged (''a/X.swift'', ''G'')
     = no_staged\<lparr>printed := printed no_staged @ [''Warning: '' @ ''a/X.swift'' @ '' does not exist'']\<rparr> \<and>
   written (register_files (\<lambda>p. p = ''b/Y.swift'') (\<lambda>i. 0)
       ([] @ (''a/X.swift'', ''G'') # [(''b/Y.swift'', ''G'')]) file_ref_marker)
     = written (register_files (\<lambda>p. p = ''b/Y.swift'') (\<lambda>i. 0)
       ([] @ [(''b/Y.swift'', ''G'')]) file_ref_marker) \<and>
   minted_ids (register_files (\<lambda>p. p = ''b/Y.swift'') (\<lambda>i. 0)
       ([] @ (''a/X.swift'', ''G'') # [(''b/Y.swift'', ''G'')]) file_ref_marker)
     = minted_ids (register_files (\<lambda>p. p = ''b/Y.swift'') (\<lambda>i. 0)
       ([] @ [(''b/Y.swift'', ''G'')]) file_ref_marker)"
proof -
  have h: "\<not> (\<lambda>p. p = ''b/Y.swift'') ''a/X.swift''" by simp
  show ?thesis
    using missing_path_is_dropped [where path_exists = "\<lambda>p. p = ''b/Y.swift''"
        and p = "''a/X.swift''" and rnd = "\<lambda>i. 0" and T = file_ref_marker and st = no_staged
        and g = "''G''" and ?E1.0 = "[]" and ?E2.0 = "[(''b/Y.swift'', ''G'')]", OF h]
    by simp
qed

end
